theory Spec2Isabelle
  imports Main "HOL-Library.Word"
begin

unbundle bit_operations_syntax

section \<open>The channel codec of sprotocol.c\<close>

text \<open>
  A shallow embedding of \<^verbatim>\<open>src/sprotocol.c\<close>: the buffered byte channel, its growable
  scratch buffer, the primitive codec, the handshake and the message codec.

  Conventions of the embedding.
  \<^item> A \<^verbatim>\<open>char\<close> is a \<open>byte\<close>, a \<^verbatim>\<open>uint32_t\<close> a \<open>u32\<close>; a \<^verbatim>\<open>float\<close> is carried as its 32-bit
    object representation, since the code only moves floats with \<^verbatim>\<open>memcpy\<close>.
  \<^item> A \<^verbatim>\<open>char\<close> array is a \<open>byte list\<close>; a pair (pointer, size) handed to a function is the
    list of the \<open>size\<close> bytes found there.
  \<^item> Cursors and sizes that the code keeps in \<^verbatim>\<open>int\<close> variables are \<open>nat\<close> where the code
    can only produce non-negative values, and \<open>int\<close> where a negative value can arrive from
    outside (the size of a blob). Overflow of \<^verbatim>\<open>int\<close> arithmetic and accesses outside an
    array are undefined behaviour in C; the embedding returns the error \<open>Undefined\<close> there.
  \<^item> \<^verbatim>\<open>abort()\<close>, \<^verbatim>\<open>pabort()\<close> and \<^verbatim>\<open>mabort()\<close> end the process; the embedding returns
    \<open>Inl Abort\<close>, \<open>Inl Pabort\<close>, \<open>Inl Mabort\<close>.
  \<^item> A function whose loops may run forever returns an \<open>option\<close>: \<open>None\<close> is "the call
    never returns".
  \<^item> The optional trace output (\<^verbatim>\<open>LOG\<close>, \<^verbatim>\<open>log_query\<close>) only prints to \<^verbatim>\<open>stderr\<close> and is
    left out.
\<close>

type_synonym byte = "8 word"
type_synonym u32 = "32 word"

datatype error = Abort | Pabort | Mabort | Undefined

subsection \<open>Sequencing of calls that may abort or not return\<close>

definition ebind :: "error + 'a \<Rightarrow> ('a \<Rightarrow> error + 'b) \<Rightarrow> error + 'b" where
  "ebind m f = (case m of Inl e \<Rightarrow> Inl e | Inr x \<Rightarrow> f x)"

definition pbind :: "(error + 'a) option \<Rightarrow> ('a \<Rightarrow> (error + 'b) option) \<Rightarrow> (error + 'b) option" where
  "pbind m f = (case m of None \<Rightarrow> None | Some (Inl e) \<Rightarrow> Some (Inl e) | Some (Inr x) \<Rightarrow> f x)"

definition ret :: "'a \<Rightarrow> (error + 'a) option" where
  "ret x = Some (Inr x)"

definition fail :: "error \<Rightarrow> (error + 'a) option" where
  "fail e = Some (Inl e)"

lemma ebind_simps [simp]:
  "ebind (Inl e) f = Inl e"
  "ebind (Inr x) f = f x"
  by (simp_all add: ebind_def)

lemma pbind_simps [simp]:
  "pbind None f = None"
  "pbind (Some (Inl e)) f = Some (Inl e)"
  "pbind (Some (Inr x)) f = f x"
  "pbind (ret x) f = f x"
  "pbind (fail e) f = fail e"
  by (simp_all add: pbind_def ret_def fail_def)

lemma pbind_mono [partial_function_mono]:
  fixes B :: "('a \<Rightarrow> 'b option) \<Rightarrow> (error + 'c) option"
    and C :: "'c \<Rightarrow> ('a \<Rightarrow> 'b option) \<Rightarrow> (error + 'd) option"
  assumes mf: "mono_option B" and mg: "\<And>y. mono_option (\<lambda>f. C y f)"
  shows "mono_option (\<lambda>f. pbind (B f) (\<lambda>y. C y f))"
proof (rule monotoneI)
  fix f g :: "'a \<Rightarrow> 'b option"
  assume fg: "fun_ord option_ord f g"
  have B: "option_ord (B f) (B g)"
    by (rule monotoneD [where f = B and x = f and y = g, OF mf fg])
  have C: "option_ord (C y f) (C y g)" for y
    by (rule monotoneD [where f = "C y" and x = f and y = g, OF mg fg])
  show "option_ord (pbind (B f) (\<lambda>y. C y f)) (pbind (B g) (\<lambda>y. C y g))"
  proof (cases "B f")
    case None
    then show ?thesis by (simp add: flat_ord_def)
  next
    case (Some r)
    with B have "B g = Some r" by (simp add: flat_ord_def)
    with Some C show ?thesis by (cases r) (simp_all add: flat_ord_def)
  qed
qed

subsection \<open>Memory\<close>

text \<open>\<open>memcpy dst off src\<close> is \<^verbatim>\<open>memcpy(dst + off, src, n)\<close> with \<open>src\<close> the \<open>n\<close> bytes copied;
  writing past the end of the array \<open>dst\<close> is undefined behaviour.\<close>

definition memcpy :: "byte list \<Rightarrow> nat \<Rightarrow> byte list \<Rightarrow> error + byte list" where
  "memcpy dst off src =
     (if off + length src \<le> length dst
      then Inr (take off dst @ src @ drop (off + length src) dst)
      else Inl Undefined)"

text \<open>\<open>peek src off n\<close> is the \<open>n\<close> bytes at \<^verbatim>\<open>src + off\<close>; reading past the end is undefined.\<close>

definition peek :: "byte list \<Rightarrow> nat \<Rightarrow> nat \<Rightarrow> error + byte list" where
  "peek src off n =
     (if off + n \<le> length src then Inr (take n (drop off src)) else Inl Undefined)"

subsection \<open>The stream behind the file descriptor\<close>

text \<open>
  The code talks to the stream through \<^verbatim>\<open>read(2)\<close> and \<^verbatim>\<open>write(2)\<close>. The stream is modelled
  by what the next calls will return:
  \<^item> \<open>reads\<close>: the outcomes of the coming \<^verbatim>\<open>read\<close> calls. \<open>RdIntr\<close>: the call fails with
    \<^verbatim>\<open>EINTR\<close>; \<open>RdFail\<close>: it fails with another error; \<open>RdData bs\<close>: the bytes \<open>bs\<close> are
    available, the call returns as many of them as it was asked for and the others stay
    for the next call; \<open>RdData []\<close> is a read of zero bytes. When the list is used up,
    the peer has closed the stream and every \<^verbatim>\<open>read\<close> returns 0.
  \<^item> \<open>writes\<close>: the outcomes of the coming \<^verbatim>\<open>write\<close> calls. \<open>WrIntr\<close> and \<open>WrFail\<close> as
    above; \<open>WrAccept k\<close>: the call takes at most \<open>k\<close> bytes. When the list is used up,
    every \<^verbatim>\<open>write\<close> takes all it is given.
  \<^item> \<open>delivered\<close>: the bytes the stream has taken so far, in order.
\<close>

datatype rd_event = RdIntr | RdFail | RdData "byte list"
datatype wr_event = WrIntr | WrFail | WrAccept nat

record stream =
  reads :: "rd_event list"
  writes :: "wr_event list"
  delivered :: "byte list"

text \<open>The result of one system call: \<open>EINTR\<close> is \<^verbatim>\<open>n == -1 && errno == EINTR\<close>, \<open>EFAIL\<close> is
  \<^verbatim>\<open>n == -1\<close> with another \<^verbatim>\<open>errno\<close>, \<open>Got x\<close> is \<^verbatim>\<open>n >= 0\<close>.\<close>

datatype 'a sysret = EINTR | EFAIL | Got 'a

fun sys_read :: "stream \<Rightarrow> nat \<Rightarrow> byte list sysret \<times> stream" where
  "sys_read s n =
     (case reads s of
        [] \<Rightarrow> (Got [], s)
      | RdIntr # es \<Rightarrow> (EINTR, s\<lparr>reads := es\<rparr>)
      | RdFail # es \<Rightarrow> (EFAIL, s\<lparr>reads := es\<rparr>)
      | RdData bs # es \<Rightarrow>
          (Got (take n bs),
           s\<lparr>reads := (if length bs \<le> n then es else RdData (drop n bs) # es)\<rparr>))"

fun sys_write :: "stream \<Rightarrow> byte list \<Rightarrow> nat sysret \<times> stream" where
  "sys_write s bs =
     (case writes s of
        [] \<Rightarrow> (Got (length bs), s\<lparr>delivered := delivered s @ bs\<rparr>)
      | WrIntr # es \<Rightarrow> (EINTR, s\<lparr>writes := es\<rparr>)
      | WrFail # es \<Rightarrow> (EFAIL, s\<lparr>writes := es\<rparr>)
      | WrAccept k # es \<Rightarrow>
          (Got (min k (length bs)),
           s\<lparr>writes := es, delivered := delivered s @ take k bs\<rparr>))"

declare sys_read.simps [simp del] sys_write.simps [simp del]

lemma sys_read_EINTR:
  "sys_read s n = (EINTR, s') \<Longrightarrow> length (reads s') < length (reads s)"
  by (cases "reads s") (auto simp: sys_read.simps split: rd_event.splits)

lemma sys_read_Got_len:
  "sys_read s n = (Got bs, s') \<Longrightarrow> length bs \<le> n \<and> length (reads s') \<le> length (reads s)"
  by (cases "reads s") (auto simp: sys_read.simps split: rd_event.splits)

lemma sys_write_EINTR:
  "sys_write s bs = (EINTR, s') \<Longrightarrow> length (writes s') < length (writes s)"
  by (cases "writes s") (auto simp: sys_write.simps split: wr_event.splits)

lemma sys_write_Got_len:
  "sys_write s bs = (Got n, s') \<Longrightarrow> n \<le> length bs \<and> length (writes s') \<le> length (writes s)"
  by (cases "writes s") (auto simp: sys_write.simps split: wr_event.splits)

subsection \<open>Reading and writing whole blocks\<close>

text \<open>\<^verbatim>\<open>buffered_read_at_least(fd, buf, atleast, size)\<close>. The bytes read so far, \<^verbatim>\<open>org .. buf\<close>, are
  the accumulator \<open>acc\<close>; the test \<^verbatim>\<open>buf >= ok\<close> is \<open>atleast \<le> length acc\<close>. The result is the
  bytes stored at \<^verbatim>\<open>org\<close>, whose number is the C function's return value.\<close>

partial_function (option) buffered_read_at_least_loop ::
  "stream \<Rightarrow> byte list \<Rightarrow> nat \<Rightarrow> nat \<Rightarrow> (error + byte list \<times> stream) option" where
  "buffered_read_at_least_loop fd acc atleast sz =
     (case sys_read fd sz of
        (EINTR, fd') \<Rightarrow> buffered_read_at_least_loop fd' acc atleast sz
      | (EFAIL, fd') \<Rightarrow> fail Pabort
      | (Got bs, fd') \<Rightarrow>
          (if atleast \<le> length (acc @ bs) then ret (acc @ bs, fd')
           else buffered_read_at_least_loop fd' (acc @ bs) atleast (sz - length bs)))"

definition buffered_read_at_least ::
  "stream \<Rightarrow> nat \<Rightarrow> nat \<Rightarrow> (error + byte list \<times> stream) option" where
  "buffered_read_at_least fd atleast sz =
     (if sz < atleast then fail Abort
      else buffered_read_at_least_loop fd [] atleast sz)"

text \<open>\<^verbatim>\<open>read_all(fd, buf, size)\<close>; the result is the \<open>size\<close> bytes stored at \<^verbatim>\<open>buf\<close>.\<close>

function read_all_loop :: "stream \<Rightarrow> byte list \<Rightarrow> nat \<Rightarrow> error + byte list \<times> stream" where
  "read_all_loop fd acc sz =
     (if sz > 0 then
        (case sys_read fd sz of
           (EINTR, fd') \<Rightarrow> read_all_loop fd' acc sz
         | (EFAIL, fd') \<Rightarrow> Inl Pabort
         | (Got bs, fd') \<Rightarrow>
             (if length bs = 0 then Inl Abort
              else read_all_loop fd' (acc @ bs) (sz - length bs)))
      else Inr (acc, fd))"
  by pat_completeness auto
termination
proof (relation "measure (\<lambda>(fd, acc, sz). sz + length (reads fd))", goal_cases)
  case 1
  show ?case by simp
next
  case (2 fd acc sz x1 x2)
  then have "sys_read fd sz = (EINTR, x2)" by simp
  from sys_read_EINTR [OF this] show ?case by simp
next
  case (3 fd acc sz x1 x2 bs)
  then have "sys_read fd sz = (Got bs, x2)" by simp
  from sys_read_Got_len [OF this] 3 show ?case by (cases bs) auto
qed

definition read_all :: "stream \<Rightarrow> nat \<Rightarrow> error + byte list \<times> stream" where
  "read_all fd sz = read_all_loop fd [] sz"

text \<open>\<^verbatim>\<open>write_all(fd, buf, size)\<close>, with \<open>bs\<close> the \<open>size\<close> bytes at \<^verbatim>\<open>buf\<close>.\<close>

function write_all :: "stream \<Rightarrow> byte list \<Rightarrow> error + stream" where
  "write_all fd bs =
     (if length bs > 0 then
        (case sys_write fd bs of
           (EINTR, fd') \<Rightarrow> write_all fd' bs
         | (EFAIL, fd') \<Rightarrow> Inl Pabort
         | (Got n, fd') \<Rightarrow>
             (if n = 0 then Inl Abort else write_all fd' (drop n bs)))
      else Inr fd)"
  by pat_completeness auto
termination
proof (relation "measure (\<lambda>(fd, bs). length bs + length (writes fd))", goal_cases)
  case 1
  show ?case by simp
next
  case (2 fd bs x1 x2)
  then have "sys_write fd bs = (EINTR, x2)" by simp
  from sys_write_EINTR [OF this] show ?case by simp
next
  case (3 fd bs x1 x2 n)
  then have "sys_write fd bs = (Got n, x2)" by simp
  from sys_write_Got_len [OF this] 3 show ?case by auto
qed

declare read_all_loop.simps [simp del] write_all.simps [simp del]


subsection \<open>What \<^verbatim>\<open>sprotocol.h\<close> and the host fix\<close>

text \<open>
  The header \<^verbatim>\<open>sprotocol.h\<close> declares the enumerations \<^verbatim>\<open>enum query\<close>, \<^verbatim>\<open>enum answer\<close>,
  \<^verbatim>\<open>enum ask\<close>, the constant \<^verbatim>\<open>ACCS_OK\<close> and the message structures. The enumerators are
  the constructors below; their numeric values, the value of \<^verbatim>\<open>ACCS_OK\<close> and the byte
  order in which the host stores a \<^verbatim>\<open>uint32_t\<close> are parameters of the embedding, collected
  in the record \<open>sprotocol_h\<close>. The case labels of a C \<^verbatim>\<open>switch\<close> are distinct, so the
  values of the enumerators of one enumeration are distinct (\<open>inj\<close>).
\<close>

datatype query = Q_OPEN | Q_READ | Q_WRIT | Q_CLOS | Q_SIZE | Q_SEEN
  | Q_CHLD | Q_BACK | Q_ACCS | Q_STAT | Q_GPIC | Q_SPIC

datatype answer = A_DONE | A_PASS | A_SIZE | A_READ | A_FORK | A_ACCS | A_STAT | A_OPEN | A_GPIC

datatype ask = C_TERM | C_FLSH

datatype byte_order = LittleEndian | BigEndian

record sprotocol_h =
  query_val :: "query \<Rightarrow> u32"
  answer_val :: "answer \<Rightarrow> u32"
  ask_val :: "ask \<Rightarrow> u32"
  ACCS_OK :: u32
  order :: byte_order

definition BUF_SIZE :: nat where
  "BUF_SIZE = 4096"

definition INT_MAX :: nat where
  "INT_MAX = 2 ^ 31 - 1"

text \<open>The object representation of a \<^verbatim>\<open>uint32_t\<close>: what \<^verbatim>\<open>memcpy(&u, p, 4)\<close> and
  \<^verbatim>\<open>memcpy(p, &u, 4)\<close> move.\<close>

definition u32_le :: "u32 \<Rightarrow> byte list" where
  "u32_le w = [ucast w, ucast (drop_bit 8 w), ucast (drop_bit 16 w), ucast (drop_bit 24 w)]"

definition le_u32 :: "byte list \<Rightarrow> u32" where
  "le_u32 bs = foldr (\<lambda>b w. ucast b OR push_bit 8 w) bs 0"

definition u32_bytes :: "sprotocol_h \<Rightarrow> u32 \<Rightarrow> byte list" where
  "u32_bytes h w = (if order h = LittleEndian then u32_le w else rev (u32_le w))"

definition bytes_u32 :: "sprotocol_h \<Rightarrow> byte list \<Rightarrow> u32" where
  "bytes_u32 h bs = le_u32 (if order h = LittleEndian then bs else rev bs)"

text \<open>A string literal is the array of its characters and the terminating NUL.

  Modelled from the spec: the macro \<^verbatim>\<open>LEN\<close> of \<^verbatim>\<open>sprotocol.h\<close> is not part of the source
  at hand; the spec gives each handshake literal as 12 bytes, which is the size of the
  array without its terminator.\<close>

definition literal :: "string \<Rightarrow> byte list" where
  "literal s = map of_char s @ [0]"

definition LEN :: "byte list \<Rightarrow> nat" where
  "LEN txt = length txt - 1"

subsection \<open>The channel\<close>

text \<open>
  \<^verbatim>\<open>struct channel_s\<close>. The field \<open>fd\<close> holds the stream behind the descriptor. Two fields
  are not in the C structure: \<open>buf_id\<close> names the allocation \<^verbatim>\<open>buf\<close> points to (each
  \<^verbatim>\<open>malloc\<close> gives a new one), so that a pointer into a freed block can be told from a
  pointer into the current one; \<open>heap\<close> lists the outcomes of the coming \<^verbatim>\<open>malloc\<close>
  calls (\<open>MallocFail\<close>: it returns \<^verbatim>\<open>NULL\<close>; \<open>MallocOk j\<close>: it returns a block whose
  bytes, not initialised in C, all read \<open>j\<close>; when the list is used up every call
  succeeds).

  The cursors \<open>input_pos \<le> input_len \<le> BUF_SIZE\<close> and \<open>output_pos \<le> BUF_SIZE\<close> are \<open>nat\<close>;
  the differences the code takes of them are non-negative under this invariant
  (\<open>channel_ok\<close> below), which \<open>channel_new\<close> establishes and every function keeps.
\<close>

datatype malloc_event = MallocFail | MallocOk byte

fun malloc :: "malloc_event list \<Rightarrow> nat \<Rightarrow> byte list option \<times> malloc_event list" where
  "malloc [] n = (Some (replicate n 0), [])"
| "malloc (MallocFail # hp) n = (None, hp)"
| "malloc (MallocOk j # hp) n = (Some (replicate n j), hp)"

text \<open>\<^verbatim>\<open>calloc\<close> of one structure: whether it succeeds; the block is zero-filled.\<close>

fun calloc :: "malloc_event list \<Rightarrow> bool \<times> malloc_event list" where
  "calloc [] = (True, [])"
| "calloc (MallocFail # hp) = (False, hp)"
| "calloc (MallocOk j # hp) = (True, hp)"

record channel_t =
  fd :: stream
  input_buffer :: "byte list"
  input_pos :: nat
  input_len :: nat
  output_buffer :: "byte list"
  output_pos :: nat
  buf :: "byte list"
  buf_size :: nat
  buf_id :: nat
  heap :: "malloc_event list"

definition cflush :: "channel_t \<Rightarrow> error + channel_t" where
  "cflush c =
     (let pos = output_pos c in
      if pos = 0 then Inr c
      else ebind (peek (output_buffer c) 0 pos) (\<lambda>bs.
           ebind (write_all (fd c) bs) (\<lambda>fd'.
           Inr (c\<lparr>fd := fd', output_pos := 0\<rparr>))))"

definition crefill :: "channel_t \<Rightarrow> nat \<Rightarrow> (error + channel_t) option" where
  "crefill c at_least =
     (let avail = input_len c - input_pos c in
      pbind (Some (peek (input_buffer c) (input_pos c) avail)) (\<lambda>unread.
      pbind (Some (memcpy (input_buffer c) 0 unread)) (\<lambda>moved.
      pbind (buffered_read_at_least (fd c) at_least (BUF_SIZE - avail)) (\<lambda>(bs, fd').
      pbind (Some (memcpy moved avail bs)) (\<lambda>filled.
      ret (c\<lparr>fd := fd', input_buffer := filled, input_pos := 0,
              input_len := avail + length bs\<rparr>))))))"

subsection \<open>Handshake\<close>

definition HND_SERVER :: "byte list" where
  "HND_SERVER = literal ''TEXPRESSOS01''"

definition HND_CLIENT :: "byte list" where
  "HND_CLIENT = literal ''TEXPRESSOC01''"

text \<open>\<^verbatim>\<open>strncmp\<close> of the C library: compares at most \<open>n\<close> characters as \<^verbatim>\<open>unsigned char\<close> and
  stops after a NUL; the result is negative, zero or positive.\<close>

fun strncmp :: "byte list \<Rightarrow> byte list \<Rightarrow> nat \<Rightarrow> error + int" where
  "strncmp s1 s2 0 = Inr 0"
| "strncmp (c1 # s1) (c2 # s2) (Suc n) =
     (if c1 \<noteq> c2 then Inr (if c1 < c2 then - 1 else 1)
      else if c1 = 0 then Inr 0
      else strncmp s1 s2 n)"
| "strncmp [] s2 (Suc n) = Inl Undefined"
| "strncmp s1 [] (Suc n) = Inl Undefined"

definition channel_handshake :: "channel_t \<Rightarrow> error + bool \<times> channel_t" where
  "channel_handshake c =
     ebind (peek HND_SERVER 0 (LEN HND_SERVER)) (\<lambda>hello.
     ebind (write_all (fd c) hello) (\<lambda>fd1.
     ebind (read_all fd1 (LEN HND_CLIENT)) (\<lambda>(answer, fd2).
     ebind (strncmp HND_CLIENT answer (LEN HND_CLIENT)) (\<lambda>cmp.
     Inr (cmp = 0, c\<lparr>fd := fd2\<rparr>)))))"

subsection \<open>Construction and the scratch buffer\<close>

definition channel_new :: "stream \<Rightarrow> malloc_event list \<Rightarrow> error + channel_t" where
  "channel_new fd0 hp =
     (case calloc hp of
        (False, hp1) \<Rightarrow> Inl Mabort
      | (True, hp1) \<Rightarrow>
          (case malloc hp1 256 of
             (None, hp2) \<Rightarrow> Inl Mabort
           | (Some b, hp2) \<Rightarrow>
               Inr \<lparr>fd = fd0,
                    input_buffer = replicate BUF_SIZE 0, input_pos = 0, input_len = 0,
                    output_buffer = replicate BUF_SIZE 0, output_pos = 0,
                    buf = b, buf_size = 256, buf_id = 0, heap = hp2\<rparr>))"

definition resize_buf :: "channel_t \<Rightarrow> error + channel_t" where
  "resize_buf t =
     (let old_size = buf_size t in
      if INT_MAX < old_size * 2 then Inl Undefined
      else let new_size = old_size * 2 in
        (case malloc (heap t) new_size of
           (None, hp) \<Rightarrow> Inl Mabort
         | (Some fresh, hp) \<Rightarrow>
             ebind (peek (buf t) 0 old_size) (\<lambda>old.
             ebind (memcpy fresh 0 old) (\<lambda>b.
             Inr (t\<lparr>buf := b, buf_size := new_size, buf_id := Suc (buf_id t), heap := hp\<rparr>)))))"

definition cgetc :: "channel_t \<Rightarrow> (error + byte \<times> channel_t) option" where
  "cgetc t =
     pbind (if input_pos t = input_len t then crefill t 1 else ret t) (\<lambda>t.
     pbind (Some (peek (input_buffer t) (input_pos t) 1)) (\<lambda>c.
     ret (hd c, t\<lparr>input_pos := input_pos t + 1\<rparr>)))"

text \<open>The \<^verbatim>\<open>do ... while (c != 0)\<close> loop of \<^verbatim>\<open>read_zstr\<close>; the result is the final \<^verbatim>\<open>*pos\<close>.\<close>

partial_function (option) read_zstr_loop ::
  "channel_t \<Rightarrow> nat \<Rightarrow> (error + nat \<times> channel_t) option" where
  "read_zstr_loop t pos =
     pbind (if pos = buf_size t then Some (resize_buf t) else ret t) (\<lambda>t.
     pbind (cgetc t) (\<lambda>(c, t).
     pbind (Some (memcpy (buf t) pos [c])) (\<lambda>b.
     if c \<noteq> 0 then read_zstr_loop (t\<lparr>buf := b\<rparr>) (pos + 1)
     else ret (pos + 1, t\<lparr>buf := b\<rparr>))))"

text \<open>\<^verbatim>\<open>read_zstr(t, &pos)\<close> returns \<open>(p0, pos', t')\<close>: the C function's result \<^verbatim>\<open>p0\<close>, the value
  it leaves in \<^verbatim>\<open>*pos\<close>, and the channel.\<close>

definition read_zstr :: "channel_t \<Rightarrow> nat \<Rightarrow> (error + nat \<times> nat \<times> channel_t) option" where
  "read_zstr t pos =
     (let p0 = pos in
      pbind (read_zstr_loop t pos) (\<lambda>(pos, t). ret (p0, pos, t)))"

text \<open>The loop \<^verbatim>\<open>while (t->buf_size < need) resize_buf(t);\<close> of \<^verbatim>\<open>read_bytes\<close> and
  \<^verbatim>\<open>channel_write_buffer\<close>.\<close>

partial_function (option) resize_until :: "channel_t \<Rightarrow> nat \<Rightarrow> (error + channel_t) option" where
  "resize_until t need =
     (if buf_size t < need then pbind (Some (resize_buf t)) (\<lambda>t. resize_until t need)
      else ret t)"

text \<open>\<^verbatim>\<open>read_bytes(t, pos, size)\<close>. A negative \<^verbatim>\<open>size\<close> passes both tests of the C code and
  reaches \<^verbatim>\<open>memcpy\<close> converted to a huge \<^verbatim>\<open>size_t\<close>: undefined behaviour.\<close>

definition read_bytes :: "channel_t \<Rightarrow> nat \<Rightarrow> int \<Rightarrow> (error + channel_t) option" where
  "read_bytes t pos size_arg =
     (if size_arg < 0 then fail Undefined
      else let sz = nat size_arg in
      pbind (resize_until t (pos + sz)) (\<lambda>t.
      let ipos = input_pos t; ilen = input_len t in
      if ipos + sz \<le> ilen then
        pbind (Some (peek (input_buffer t) ipos sz)) (\<lambda>bs.
        pbind (Some (memcpy (buf t) pos bs)) (\<lambda>b.
        ret (t\<lparr>buf := b, input_pos := input_pos t + sz\<rparr>)))
      else
        let isize = ilen - ipos in
        pbind (Some (peek (input_buffer t) ipos isize)) (\<lambda>bs.
        pbind (Some (memcpy (buf t) pos bs)) (\<lambda>b.
        pbind (Some (read_all (fd t) (sz - isize))) (\<lambda>(rest, fd').
        pbind (Some (memcpy b (pos + isize) rest)) (\<lambda>b'.
        ret (t\<lparr>buf := b', input_pos := 0, input_len := 0, fd := fd'\<rparr>)))))))"

text \<open>\<^verbatim>\<open>write_bytes(t, buf, size)\<close>, with \<open>bs\<close> the \<open>size\<close> bytes at \<^verbatim>\<open>buf\<close>.\<close>

definition write_bytes :: "channel_t \<Rightarrow> byte list \<Rightarrow> error + channel_t" where
  "write_bytes t bs =
     (let sz = length bs in
      if output_pos t + sz \<le> BUF_SIZE then
        ebind (memcpy (output_buffer t) (output_pos t) bs) (\<lambda>b.
        Inr (t\<lparr>output_buffer := b, output_pos := output_pos t + sz\<rparr>))
      else
        ebind (cflush t) (\<lambda>t.
        if sz > BUF_SIZE then
          ebind (write_all (fd t) bs) (\<lambda>fd'. Inr (t\<lparr>fd := fd'\<rparr>))
        else
          ebind (memcpy (output_buffer t) 0 bs) (\<lambda>b.
          Inr (t\<lparr>output_buffer := b, output_pos := sz\<rparr>))))"

subsection \<open>Primitive codec\<close>

text \<open>\<^verbatim>\<open>try_read_u32(t, &tag)\<close>: the result \<open>None\<close> is the return value 0 (\<^verbatim>\<open>*tag\<close> untouched),
  \<open>Some v\<close> is the return value 1 with \<open>v\<close> stored in \<^verbatim>\<open>*tag\<close>.\<close>

definition try_read_u32 ::
  "sprotocol_h \<Rightarrow> channel_t \<Rightarrow> (error + u32 option \<times> channel_t) option" where
  "try_read_u32 h t =
     (let avail = input_len t - input_pos t in
      pbind (if avail = 0 then crefill t 0 else ret t) (\<lambda>t.
      let avail = input_len t - input_pos t in
      if avail = 0 then ret (None, t)
      else
        pbind (if avail < 4 then crefill t (4 - avail) else ret t) (\<lambda>t.
        pbind (Some (peek (input_buffer t) (input_pos t) 4)) (\<lambda>bs.
        ret (Some (bytes_u32 h bs), t\<lparr>input_pos := input_pos t + 4\<rparr>)))))"

definition read_u32 :: "sprotocol_h \<Rightarrow> channel_t \<Rightarrow> (error + u32 \<times> channel_t) option" where
  "read_u32 h t =
     (let avail = input_len t - input_pos t in
      pbind (if avail < 4 then crefill t (4 - avail) else ret t) (\<lambda>t.
      pbind (Some (peek (input_buffer t) (input_pos t) 4)) (\<lambda>bs.
      ret (bytes_u32 h bs, t\<lparr>input_pos := input_pos t + 4\<rparr>))))"

definition write_u32 :: "sprotocol_h \<Rightarrow> channel_t \<Rightarrow> u32 \<Rightarrow> error + channel_t" where
  "write_u32 h t u = write_bytes t (u32_bytes h u)"

text \<open>A \<^verbatim>\<open>float\<close> is carried as the \<open>u32\<close> with the same object representation.\<close>

type_synonym float = u32

definition read_f32 :: "sprotocol_h \<Rightarrow> channel_t \<Rightarrow> (error + float \<times> channel_t) option" where
  "read_f32 h t =
     (let avail = input_len t - input_pos t in
      pbind (if avail < 4 then crefill t (4 - avail) else ret t) (\<lambda>t.
      pbind (Some (peek (input_buffer t) (input_pos t) 4)) (\<lambda>bs.
      ret (bytes_u32 h bs, t\<lparr>input_pos := input_pos t + 4\<rparr>))))"

definition write_f32 :: "sprotocol_h \<Rightarrow> channel_t \<Rightarrow> float \<Rightarrow> error + channel_t" where
  "write_f32 h t f = write_bytes t (u32_bytes h f)"


subsection \<open>Messages\<close>

text \<open>
  The message structures \<^verbatim>\<open>query_t\<close>, \<^verbatim>\<open>answer_t\<close> and \<^verbatim>\<open>ask_t\<close> of \<^verbatim>\<open>sprotocol.h\<close>, with one
  record field for each member the code names: \<^verbatim>\<open>r->open.fid\<close> is \<open>open_fid r\<close>. The members
  of the variants are independent fields here; the embedding assumes nothing on how the
  header overlays them. Integer members are carried as the \<open>u32\<close> that \<^verbatim>\<open>read_u32\<close> delivers
  or \<^verbatim>\<open>write_u32\<close> is given, an array \<^verbatim>\<open>float bounds[4]\<close> as a 4-tuple; the blob sizes of an answer, which also reach \<^verbatim>\<open>write_bytes\<close>
  as an \<^verbatim>\<open>int\<close>, are \<open>int\<close>. A \<^verbatim>\<open>char *\<close> into the scratch buffer is a \<open>ptr\<close>: the
  allocation it points into and the offset there.
\<close>

record ptr =
  block :: nat
  offset :: nat

record stat_time =
  sec :: u32
  nsec :: u32

record stat_answer =
  dev :: u32
  ino :: u32
  mode :: u32
  nlink :: u32
  uid :: u32
  gid :: u32
  rdev :: u32
  size' :: u32
  blksize :: u32
  blocks :: u32
  atime :: stat_time
  ctime :: stat_time
  mtime :: stat_time

record answer_t =
  tag :: u32
  size_size :: u32
  read_size :: int
  open_size :: int
  accs_flag :: u32
  stat_flag :: u32
  stat_stat :: stat_answer
  gpic_bounds :: "float \<times> float \<times> float \<times> float"

record ask_t =
  tag :: u32
  term_pid :: u32

record query_t =
  tag :: u32
  time :: u32
  open_fid :: u32
  open_path :: ptr
  open_mode :: ptr
  read_fid :: u32
  read_pos :: u32
  read_size :: u32
  writ_fid :: u32
  writ_pos :: u32
  writ_size :: u32
  writ_buf :: ptr
  clos_fid :: u32
  size_fid :: u32
  seen_fid :: u32
  seen_pos :: u32
  chld_pid :: u32
  back_pid :: u32
  back_cid :: u32
  back_exitcode :: u32
  accs_path :: ptr
  accs_flags :: u32
  stat_path :: ptr
  gpic_path :: ptr
  gpic_type :: u32
  gpic_page :: u32
  spic_path :: ptr
  spic_cache_type :: u32
  spic_cache_page :: u32
  spic_cache_bounds :: "float \<times> float \<times> float \<times> float"

text \<open>\<^verbatim>\<open>&t->buf[pos]\<close>\<close>

definition buf_at :: "channel_t \<Rightarrow> nat \<Rightarrow> ptr" where
  "buf_at t pos = \<lparr>block = buf_id t, offset = pos\<rparr>"

text \<open>The \<^verbatim>\<open>switch (tag)\<close> of \<^verbatim>\<open>channel_read_query\<close>, entered with \<^verbatim>\<open>pos = 0\<close>.\<close>

definition read_query_switch ::
  "sprotocol_h \<Rightarrow> u32 \<Rightarrow> channel_t \<Rightarrow> query_t \<Rightarrow> (error + query_t \<times> channel_t) option" where
  "read_query_switch h tg t r =
     (let pos = 0 in
      if tg = query_val h Q_OPEN then
        pbind (read_u32 h t) (\<lambda>(fid, t).
        pbind (read_zstr t pos) (\<lambda>(pos_path, pos, t).
        pbind (read_zstr t pos) (\<lambda>(pos_mode, pos, t).
        ret (r\<lparr>open_fid := fid, open_path := buf_at t pos_path,
               open_mode := buf_at t pos_mode\<rparr>, t))))
      else if tg = query_val h Q_READ then
        pbind (read_u32 h t) (\<lambda>(fid, t).
        pbind (read_u32 h t) (\<lambda>(p, t).
        pbind (read_u32 h t) (\<lambda>(sz, t).
        ret (r\<lparr>query_t.read_fid := fid, read_pos := p, query_t.read_size := sz\<rparr>, t))))
      else if tg = query_val h Q_WRIT then
        pbind (read_u32 h t) (\<lambda>(fid, t).
        pbind (read_u32 h t) (\<lambda>(p, t).
        pbind (read_u32 h t) (\<lambda>(sz, t).
        pbind (read_bytes t 0 (sint sz)) (\<lambda>t.
        ret (r\<lparr>writ_fid := fid, writ_pos := p, writ_size := sz,
               writ_buf := buf_at t 0\<rparr>, t)))))
      else if tg = query_val h Q_CLOS then
        pbind (read_u32 h t) (\<lambda>(fid, t). ret (r\<lparr>clos_fid := fid\<rparr>, t))
      else if tg = query_val h Q_SIZE then
        pbind (read_u32 h t) (\<lambda>(fid, t). ret (r\<lparr>size_fid := fid\<rparr>, t))
      else if tg = query_val h Q_SEEN then
        pbind (read_u32 h t) (\<lambda>(fid, t).
        pbind (read_u32 h t) (\<lambda>(p, t).
        ret (r\<lparr>seen_fid := fid, seen_pos := p\<rparr>, t)))
      else if tg = query_val h Q_CHLD then
        pbind (read_u32 h t) (\<lambda>(pid, t). ret (r\<lparr>chld_pid := pid\<rparr>, t))
      else if tg = query_val h Q_BACK then
        pbind (read_u32 h t) (\<lambda>(pid, t).
        pbind (read_u32 h t) (\<lambda>(cid, t).
        pbind (read_u32 h t) (\<lambda>(code, t).
        ret (r\<lparr>back_pid := pid, back_cid := cid, back_exitcode := code\<rparr>, t))))
      else if tg = query_val h Q_ACCS then
        pbind (read_zstr t pos) (\<lambda>(pos_path, pos, t).
        let r = r\<lparr>accs_path := buf_at t pos_path\<rparr> in
        pbind (read_u32 h t) (\<lambda>(flags, t). ret (r\<lparr>accs_flags := flags\<rparr>, t)))
      else if tg = query_val h Q_STAT then
        pbind (read_zstr t pos) (\<lambda>(pos_path, pos, t).
        ret (r\<lparr>stat_path := buf_at t pos_path\<rparr>, t))
      else if tg = query_val h Q_GPIC then
        pbind (read_zstr t pos) (\<lambda>(pos_path, pos, t).
        let r = r\<lparr>gpic_path := buf_at t pos_path\<rparr> in
        pbind (read_u32 h t) (\<lambda>(ty, t).
        pbind (read_u32 h t) (\<lambda>(pg, t).
        ret (r\<lparr>gpic_type := ty, gpic_page := pg\<rparr>, t))))
      else if tg = query_val h Q_SPIC then
        pbind (read_zstr t pos) (\<lambda>(pos_path, pos, t).
        let r = r\<lparr>spic_path := buf_at t pos_path\<rparr> in
        pbind (read_u32 h t) (\<lambda>(ty, t).
        pbind (read_u32 h t) (\<lambda>(pg, t).
        pbind (read_f32 h t) (\<lambda>(b0, t).
        pbind (read_f32 h t) (\<lambda>(b1, t).
        pbind (read_f32 h t) (\<lambda>(b2, t).
        pbind (read_f32 h t) (\<lambda>(b3, t).
        ret (r\<lparr>spic_cache_type := ty, spic_cache_page := pg,
               spic_cache_bounds := (b0, b1, b2, b3)\<rparr>, t))))))))
      else fail Mabort)"

text \<open>\<^verbatim>\<open>channel_read_query(t, r)\<close> returns \<open>(b, r', t')\<close>: the C function's result and the query
  structure and the channel as it leaves them.\<close>

definition channel_read_query ::
  "sprotocol_h \<Rightarrow> channel_t \<Rightarrow> query_t \<Rightarrow> (error + bool \<times> query_t \<times> channel_t) option" where
  "channel_read_query h t r =
     pbind (try_read_u32 h t) (\<lambda>(got, t).
     case got of
       None \<Rightarrow> ret (False, r, t)
     | Some tg \<Rightarrow>
         (let r = r\<lparr>query_t.tag := tg\<rparr> in
          pbind (read_u32 h t) (\<lambda>(tm, t).
          let r = r\<lparr>time := tm\<rparr> in
          pbind (read_query_switch h tg t r) (\<lambda>(r, t).
          ret (True, r, t)))))"

definition channel_write_ask :: "sprotocol_h \<Rightarrow> channel_t \<Rightarrow> ask_t \<Rightarrow> error + channel_t" where
  "channel_write_ask h t a =
     ebind (write_u32 h t (ask_t.tag a)) (\<lambda>t.
     if ask_t.tag a = ask_val h C_TERM then write_u32 h t (term_pid a)
     else if ask_t.tag a = ask_val h C_FLSH then Inr t
     else Inl Mabort)"

definition write_time :: "sprotocol_h \<Rightarrow> channel_t \<Rightarrow> stat_time \<Rightarrow> error + channel_t" where
  "write_time h t tm =
     ebind (write_u32 h t (sec tm)) (\<lambda>t. write_u32 h t (nsec tm))"

text \<open>The blob of an \<^verbatim>\<open>A_READ\<close> or \<^verbatim>\<open>A_OPEN\<close> answer, \<^verbatim>\<open>write_bytes(t, t->buf, size)\<close>: the
  \<open>size\<close> bytes at the start of the scratch buffer. A negative size, or one beyond the
  allocation, makes \<^verbatim>\<open>memcpy\<close> read outside the block.\<close>

definition write_blob :: "channel_t \<Rightarrow> int \<Rightarrow> error + channel_t" where
  "write_blob t sz =
     (if sz < 0 then Inl Undefined
      else ebind (peek (buf t) 0 (nat sz)) (\<lambda>bs. write_bytes t bs))"

definition channel_write_answer ::
  "sprotocol_h \<Rightarrow> channel_t \<Rightarrow> answer_t \<Rightarrow> error + channel_t" where
  "channel_write_answer h t a =
     ebind (write_u32 h t (answer_t.tag a)) (\<lambda>t.
     if answer_t.tag a = answer_val h A_DONE then Inr t
     else if answer_t.tag a = answer_val h A_PASS then Inr t
     else if answer_t.tag a = answer_val h A_FORK then Inr t
     else if answer_t.tag a = answer_val h A_READ then
       ebind (write_u32 h t (word_of_int (answer_t.read_size a))) (\<lambda>t.
       write_blob t (answer_t.read_size a))
     else if answer_t.tag a = answer_val h A_ACCS then
       write_u32 h t (accs_flag a)
     else if answer_t.tag a = answer_val h A_STAT then
       ebind (write_u32 h t (stat_flag a)) (\<lambda>t.
       if accs_flag a = ACCS_OK h then
         ebind (write_u32 h t (dev (stat_stat a))) (\<lambda>t.
         ebind (write_u32 h t (ino (stat_stat a))) (\<lambda>t.
         ebind (write_u32 h t (mode (stat_stat a))) (\<lambda>t.
         ebind (write_u32 h t (nlink (stat_stat a))) (\<lambda>t.
         ebind (write_u32 h t (uid (stat_stat a))) (\<lambda>t.
         ebind (write_u32 h t (gid (stat_stat a))) (\<lambda>t.
         ebind (write_u32 h t (rdev (stat_stat a))) (\<lambda>t.
         ebind (write_u32 h t (size' (stat_stat a))) (\<lambda>t.
         ebind (write_u32 h t (blksize (stat_stat a))) (\<lambda>t.
         ebind (write_u32 h t (blocks (stat_stat a))) (\<lambda>t.
         ebind (write_time h t (atime (stat_stat a))) (\<lambda>t.
         ebind (write_time h t (ctime (stat_stat a))) (\<lambda>t.
         write_time h t (mtime (stat_stat a))))))))))))))
       else Inr t)
     else if answer_t.tag a = answer_val h A_SIZE then
       write_u32 h t (size_size a)
     else if answer_t.tag a = answer_val h A_OPEN then
       ebind (write_u32 h t (word_of_int (open_size a))) (\<lambda>t.
       write_blob t (open_size a))
     else if answer_t.tag a = answer_val h A_GPIC then
       (case gpic_bounds a of (b0, b1, b2, b3) \<Rightarrow>
          ebind (write_f32 h t b0) (\<lambda>t.
          ebind (write_f32 h t b1) (\<lambda>t.
          ebind (write_f32 h t b2) (\<lambda>t.
          write_f32 h t b3))))
     else Inl Mabort)"

definition channel_flush :: "channel_t \<Rightarrow> error + channel_t" where
  "channel_flush t = cflush t"

text \<open>\<^verbatim>\<open>channel_write_buffer(t, n)\<close> returns the channel and the pointer \<^verbatim>\<open>t->buf\<close>.\<close>

definition channel_write_buffer :: "channel_t \<Rightarrow> nat \<Rightarrow> (error + ptr \<times> channel_t) option" where
  "channel_write_buffer t n =
     pbind (resize_until t n) (\<lambda>t. ret (buf_at t 0, t))"

section \<open>Properties of the write path\<close>

lemma sys_write_EINTR_eq:
  "sys_write s bs = (EINTR, s') \<Longrightarrow> delivered s' = delivered s \<and> reads s' = reads s"
  by (cases "writes s") (auto simp: sys_write.simps split: wr_event.splits)

lemma sys_write_Got_eq:
  "sys_write s bs = (Got n, s') \<Longrightarrow>
     delivered s' = delivered s @ take n bs \<and> reads s' = reads s \<and> n \<le> length bs"
  by (cases "writes s") (auto simp: sys_write.simps min_def split: wr_event.splits)

lemma write_all_delivered:
  "write_all s bs = Inr s' \<Longrightarrow> delivered s' = delivered s @ bs \<and> reads s' = reads s"
proof (induction s bs rule: write_all.induct)
  case (1 s bs)
  show ?case
  proof (cases "bs = []")
    case True
    with "1.prems" show ?thesis by (simp add: write_all.simps)
  next
    case False
    then have pos: "0 < length bs" by simp
    obtain r s1 where sw: "(r, s1) = sys_write s bs" by (cases "sys_write s bs") simp
    show ?thesis
    proof (cases r)
      case EINTR
      with sw pos "1.prems" have rec: "write_all s1 bs = Inr s'"
        by (simp add: write_all.simps [of s bs] split: prod.splits)
      from "1.IH"(1) [OF pos sw EINTR rec]
      have "delivered s' = delivered s1 @ bs \<and> reads s' = reads s1" .
      with sys_write_EINTR_eq [of s bs s1] sw EINTR show ?thesis by simp
    next
      case EFAIL
      with sw pos "1.prems" show ?thesis
        by (simp add: write_all.simps [of s bs] split: prod.splits)
    next
      case (Got n)
      with sw pos "1.prems" have n0: "n \<noteq> 0" and rec: "write_all s1 (drop n bs) = Inr s'"
        by (auto simp: write_all.simps [of s bs] split: if_splits prod.splits)
      from "1.IH"(2) [OF pos sw Got n0 rec]
      have "delivered s' = delivered s1 @ drop n bs \<and> reads s' = reads s1" .
      with sys_write_Got_eq [of s bs n s1] sw Got show ?thesis by simp
    qed
  qed
qed

fun wr_ok :: "wr_event \<Rightarrow> bool" where
  "wr_ok WrIntr = True"
| "wr_ok WrFail = False"
| "wr_ok (WrAccept k) = (0 < k)"

lemma write_all_ok:
  "list_all wr_ok (writes s) \<Longrightarrow> \<exists>s'. write_all s bs = Inr s' \<and> list_all wr_ok (writes s')"
proof (induction s bs rule: write_all.induct)
  case (1 s bs)
  show ?case
  proof (cases "bs = []")
    case True
    with "1.prems" show ?thesis by (simp add: write_all.simps)
  next
    case False
    then have pos: "0 < length bs" by simp
    show ?thesis
    proof (cases "writes s")
      case Nil
      then have sw: "sys_write s bs = (Got (length bs), s\<lparr>delivered := delivered s @ bs\<rparr>)"
        by (simp add: sys_write.simps)
      with False Nil show ?thesis
        by (simp add: write_all.simps [of s bs] write_all.simps [of _ "[]"])
    next
      case (Cons e es)
      with "1.prems" have ok: "wr_ok e" "list_all wr_ok es" by simp_all
      show ?thesis
      proof (cases e)
        case WrIntr
        with Cons have sw: "sys_write s bs = (EINTR, s\<lparr>writes := es\<rparr>)"
          by (simp add: sys_write.simps)
        have "list_all wr_ok (writes (s\<lparr>writes := es\<rparr>))" using ok by simp
        from "1.IH"(1) [OF pos sw [symmetric] refl this]
        show ?thesis using sw False by (simp add: write_all.simps [of s bs])
      next
        case WrFail
        with ok show ?thesis by simp
      next
        case (WrAccept k)
        with Cons have sw: "sys_write s bs =
            (Got (min k (length bs)), s\<lparr>writes := es, delivered := delivered s @ take k bs\<rparr>)"
          by (simp add: sys_write.simps)
        from ok WrAccept False have n0: "min k (length bs) \<noteq> 0" by simp
        have "list_all wr_ok (writes (s\<lparr>writes := es, delivered := delivered s @ take k bs\<rparr>))"
          using ok by simp
        from "1.IH"(2) [OF pos sw [symmetric] refl n0 this]
        show ?thesis using sw False n0 by (simp add: write_all.simps [of s bs])
      qed
    qed
  qed
qed

text \<open>The output side of the channel invariant, and the bytes the channel has put out so
  far: those the stream has taken and those still staged.\<close>

definition output_ok :: "channel_t \<Rightarrow> bool" where
  "output_ok t = (length (output_buffer t) = BUF_SIZE \<and> output_pos t \<le> BUF_SIZE)"

definition sent :: "channel_t \<Rightarrow> byte list" where
  "sent t = delivered (fd t) @ take (output_pos t) (output_buffer t)"

text \<open>\<open>only_output t t'\<close>: the step from \<open>t\<close> to \<open>t'\<close> touched nothing but the output staging
  buffer and the write side of the stream.\<close>

definition only_output :: "channel_t \<Rightarrow> channel_t \<Rightarrow> bool" where
  "only_output t t' =
     (input_buffer t' = input_buffer t \<and> input_pos t' = input_pos t \<and>
      input_len t' = input_len t \<and> buf t' = buf t \<and> buf_size t' = buf_size t \<and>
      buf_id t' = buf_id t \<and> heap t' = heap t \<and> reads (fd t') = reads (fd t))"

lemma only_output_refl [simp]: "only_output t t"
  by (simp add: only_output_def)

lemma only_output_trans: "only_output t t1 \<Longrightarrow> only_output t1 t2 \<Longrightarrow> only_output t t2"
  by (simp add: only_output_def)

lemma cflush_sent:
  assumes ok: "output_ok t" and fl: "cflush t = Inr t'"
  shows "delivered (fd t') = sent t \<and> output_pos t' = 0 \<and> output_ok t' \<and> only_output t t'"
proof (cases "output_pos t = 0")
  case True
  with fl ok show ?thesis by (auto simp: cflush_def sent_def)
next
  case False
  from ok have pk: "peek (output_buffer t) 0 (output_pos t) = Inr (take (output_pos t) (output_buffer t))"
    by (simp add: peek_def output_ok_def)
  with False fl obtain s' where
    wa: "write_all (fd t) (take (output_pos t) (output_buffer t)) = Inr s'"
    and t': "t' = t\<lparr>fd := s', output_pos := 0\<rparr>"
    by (cases "write_all (fd t) (take (output_pos t) (output_buffer t))")
       (auto simp: cflush_def Let_def)
  from write_all_delivered [OF wa] t' ok show ?thesis
    by (simp add: sent_def output_ok_def only_output_def)
qed

lemma memcpy_take_append:
  "off + length src \<le> length dst \<Longrightarrow>
   memcpy dst off src = Inr b \<Longrightarrow> length b = length dst \<and> take (off + length src) b = take off dst @ src"
  by (auto simp: memcpy_def)

lemma write_bytes_sent:
  assumes ok: "output_ok t" and wr: "write_bytes t bs = Inr t'"
  shows "sent t' = sent t @ bs \<and> output_ok t' \<and> only_output t t'"
proof (cases "output_pos t + length bs \<le> BUF_SIZE")
  case True
  with ok have fits: "output_pos t + length bs \<le> length (output_buffer t)"
    by (simp add: output_ok_def)
  then obtain b where m: "memcpy (output_buffer t) (output_pos t) bs = Inr b"
    by (simp add: memcpy_def)
  with True wr have t': "t' = t\<lparr>output_buffer := b, output_pos := output_pos t + length bs\<rparr>"
    by (auto simp: write_bytes_def Let_def)
  from memcpy_take_append [OF fits m] t' ok True show ?thesis
    by (simp add: sent_def output_ok_def only_output_def)
next
  case False
  with wr obtain t1 where fl: "cflush t = Inr t1"
    by (cases "cflush t") (auto simp: write_bytes_def Let_def)
  note f = cflush_sent [OF ok fl]
  show ?thesis
  proof (cases "length bs > BUF_SIZE")
    case True
    with False wr fl obtain s' where wa: "write_all (fd t1) bs = Inr s'" and t': "t' = t1\<lparr>fd := s'\<rparr>"
      by (cases "write_all (fd t1) bs") (auto simp: write_bytes_def Let_def)
    have "only_output t1 t'" using t' write_all_delivered [OF wa] by (simp add: only_output_def)
    with f have "only_output t t'" by (blast intro: only_output_trans)
    with write_all_delivered [OF wa] t' f show ?thesis
      by (simp add: sent_def output_ok_def)
  next
    case small: False
    with f have fits: "0 + length bs \<le> length (output_buffer t1)"
      by (simp add: output_ok_def)
    then obtain b where m: "memcpy (output_buffer t1) 0 bs = Inr b"
      by (simp add: memcpy_def)
    with small False wr fl have t': "t' = t1\<lparr>output_buffer := b, output_pos := length bs\<rparr>"
      by (auto simp: write_bytes_def Let_def)
    have "only_output t1 t'" using t' by (simp add: only_output_def)
    with f have oo: "only_output t t'" by (blast intro: only_output_trans)
    from memcpy_take_append [OF fits m] t' f small oo show ?thesis
      by (simp add: sent_def output_ok_def)
  qed
qed

lemma cflush_ok:
  assumes ok: "output_ok t" and w: "list_all wr_ok (writes (fd t))"
  shows "\<exists>t'. cflush t = Inr t' \<and> list_all wr_ok (writes (fd t'))"
proof (cases "output_pos t = 0")
  case True
  with w show ?thesis by (simp add: cflush_def)
next
  case False
  from ok have pk: "peek (output_buffer t) 0 (output_pos t) = Inr (take (output_pos t) (output_buffer t))"
    by (simp add: peek_def output_ok_def)
  from write_all_ok [OF w, of "take (output_pos t) (output_buffer t)"]
  obtain s' where "write_all (fd t) (take (output_pos t) (output_buffer t)) = Inr s'"
    "list_all wr_ok (writes s')" by blast
  with False pk show ?thesis by (simp add: cflush_def Let_def)
qed

lemma write_bytes_ok:
  assumes ok: "output_ok t" and w: "list_all wr_ok (writes (fd t))"
  shows "\<exists>t'. write_bytes t bs = Inr t' \<and> list_all wr_ok (writes (fd t'))"
proof (cases "output_pos t + length bs \<le> BUF_SIZE")
  case True
  with ok w show ?thesis by (simp add: write_bytes_def Let_def memcpy_def output_ok_def)
next
  case False
  from cflush_ok [OF ok w] obtain t1 where fl: "cflush t = Inr t1"
    and w1: "list_all wr_ok (writes (fd t1))" by blast
  note f = cflush_sent [OF ok fl]
  show ?thesis
  proof (cases "length bs > BUF_SIZE")
    case True
    from write_all_ok [OF w1, of bs] obtain s' where "write_all (fd t1) bs = Inr s'"
      "list_all wr_ok (writes s')" by blast
    with True False fl show ?thesis by (simp add: write_bytes_def Let_def)
  next
    case small: False
    with f w1 False fl show ?thesis
      by (simp add: write_bytes_def Let_def memcpy_def output_ok_def)
  qed
qed

text \<open>A sequence of calls of \<^verbatim>\<open>write_bytes\<close>, one for each byte sequence of the list, stopping
  at the first that aborts.\<close>

fun write_seq :: "channel_t \<Rightarrow> byte list list \<Rightarrow> error + channel_t" where
  "write_seq t [] = Inr t"
| "write_seq t (bs # bss) = ebind (write_bytes t bs) (\<lambda>t. write_seq t bss)"

lemma write_seq_sent:
  "output_ok t \<Longrightarrow> write_seq t bss = Inr t' \<Longrightarrow>
     sent t' = sent t @ concat bss \<and> output_ok t' \<and> only_output t t'"
proof (induction bss arbitrary: t)
  case Nil
  then show ?case by simp
next
  case (Cons bs bss)
  from Cons.prems(2) obtain t1 where w1: "write_bytes t bs = Inr t1" and rest: "write_seq t1 bss = Inr t'"
    by (cases "write_bytes t bs") auto
  note s1 = write_bytes_sent [OF Cons.prems(1) w1]
  from s1 have ok1: "output_ok t1" by simp
  from Cons.IH [OF ok1 rest] s1 show ?case
    by (auto intro: only_output_trans)
qed

lemma write_seq_ok:
  "output_ok t \<Longrightarrow> list_all wr_ok (writes (fd t)) \<Longrightarrow>
     \<exists>t'. write_seq t bss = Inr t' \<and> list_all wr_ok (writes (fd t'))"
proof (induction bss arbitrary: t)
  case Nil
  then show ?case by simp
next
  case (Cons bs bss)
  from write_bytes_ok [OF Cons.prems, of bs] obtain t1 where
    w1: "write_bytes t bs = Inr t1" and ok1: "list_all wr_ok (writes (fd t1))" by blast
  from write_bytes_sent [OF Cons.prems(1) w1] have "output_ok t1" by simp
  from Cons.IH [OF this ok1] w1 show ?case by simp
qed

lemma write_seq_append:
  "write_seq t (xs @ ys) = ebind (write_seq t xs) (\<lambda>t. write_seq t ys)"
proof (induction xs arbitrary: t)
  case Nil
  show ?case by simp
next
  case (Cons x xs)
  show ?case by (cases "write_bytes t x") (simp_all add: Cons.IH)
qed

lemma ebind_assoc: "ebind (ebind m f) g = ebind m (\<lambda>x. ebind (f x) g)"
  by (cases m) simp_all

lemma ebind_Inr_right: "ebind m Inr = m"
  by (cases m) simp_all

lemma ebind_cong_Inr:
  "(\<And>x. m = Inr x \<Longrightarrow> f x = g x) \<Longrightarrow> ebind m f = ebind m g"
  by (cases m) simp_all

lemma write_bytes_buf: "write_bytes t bs = Inr t' \<Longrightarrow> buf t' = buf t"
  by (auto simp: write_bytes_def cflush_def Let_def ebind_def split: if_splits sum.splits)

subsection \<open>The wire layout of answers and asks\<close>

text \<open>
  The layout table of the message codec, written out as the byte sequences an encoder
  hands to the output writer, in order: the tag, then the fields of the variant. For
  \<^verbatim>\<open>A_READ\<close> and \<^verbatim>\<open>A_OPEN\<close> the blob is the start of the scratch buffer \<open>scratch\<close>; for
  \<^verbatim>\<open>A_STAT\<close> the record follows the flag when the access flag of the answer is
  \<^verbatim>\<open>ACCS_OK\<close>.
\<close>

definition stat_writes :: "sprotocol_h \<Rightarrow> stat_answer \<Rightarrow> byte list list" where
  "stat_writes h st = map (u32_bytes h)
     [dev st, ino st, mode st, nlink st, uid st, gid st, rdev st, size' st, blksize st,
      blocks st, sec (atime st), nsec (atime st), sec (ctime st), nsec (ctime st),
      sec (mtime st), nsec (mtime st)]"

definition answer_writes :: "sprotocol_h \<Rightarrow> byte list \<Rightarrow> answer_t \<Rightarrow> byte list list" where
  "answer_writes h scratch a =
     u32_bytes h (answer_t.tag a) #
     (if answer_t.tag a = answer_val h A_DONE then []
      else if answer_t.tag a = answer_val h A_PASS then []
      else if answer_t.tag a = answer_val h A_FORK then []
      else if answer_t.tag a = answer_val h A_READ then
        [u32_bytes h (word_of_int (answer_t.read_size a)),
         take (nat (answer_t.read_size a)) scratch]
      else if answer_t.tag a = answer_val h A_ACCS then [u32_bytes h (accs_flag a)]
      else if answer_t.tag a = answer_val h A_STAT then
        u32_bytes h (stat_flag a) #
        (if accs_flag a = ACCS_OK h then stat_writes h (stat_stat a) else [])
      else if answer_t.tag a = answer_val h A_SIZE then [u32_bytes h (size_size a)]
      else if answer_t.tag a = answer_val h A_OPEN then
        [u32_bytes h (word_of_int (open_size a)), take (nat (open_size a)) scratch]
      else if answer_t.tag a = answer_val h A_GPIC then
        (case gpic_bounds a of (b0, b1, b2, b3) \<Rightarrow> map (u32_bytes h) [b0, b1, b2, b3])
      else [])"

definition ask_writes :: "sprotocol_h \<Rightarrow> ask_t \<Rightarrow> byte list list" where
  "ask_writes h a =
     u32_bytes h (ask_t.tag a) #
     (if ask_t.tag a = ask_val h C_TERM then [u32_bytes h (term_pid a)] else [])"

text \<open>An answer the encoder can take: its tag is one of the nine, and the blob of an
  \<^verbatim>\<open>A_READ\<close> or \<^verbatim>\<open>A_OPEN\<close> answer lies in the scratch buffer.\<close>

definition answer_valid :: "sprotocol_h \<Rightarrow> byte list \<Rightarrow> answer_t \<Rightarrow> bool" where
  "answer_valid h scratch a =
     ((\<exists>k. answer_t.tag a = answer_val h k) \<and>
      (answer_t.tag a \<notin> answer_val h ` {A_DONE, A_PASS, A_FORK} \<and>
       answer_t.tag a = answer_val h A_READ \<longrightarrow>
         0 \<le> answer_t.read_size a \<and> nat (answer_t.read_size a) \<le> length scratch) \<and>
      (answer_t.tag a \<notin> answer_val h ` {A_DONE, A_PASS, A_FORK, A_READ, A_ACCS, A_STAT, A_SIZE} \<and>
       answer_t.tag a = answer_val h A_OPEN \<longrightarrow>
         0 \<le> open_size a \<and> nat (open_size a) \<le> length scratch))"

lemma write_blob_eq:
  "0 \<le> sz \<Longrightarrow> nat sz \<le> length (buf t) \<Longrightarrow> write_blob t sz = write_bytes t (take (nat sz) (buf t))"
  by (simp add: write_blob_def peek_def)

lemma write_blob_bad:
  "sz < 0 \<or> length (buf t) < nat sz \<Longrightarrow> write_blob t sz = Inl Undefined"
  by (auto simp: write_blob_def peek_def)

lemma blob_eq:
  assumes "0 \<le> sz" "nat sz \<le> length (buf t)"
  shows "ebind (write_bytes t b) (\<lambda>t. write_blob t sz)
       = ebind (write_bytes t b) (\<lambda>t'. write_bytes t' (take (nat sz) (buf t)))"
proof (cases "write_bytes t b")
  case (Inl e)
  then show ?thesis by simp
next
  case (Inr t1)
  from write_bytes_buf [OF Inr] assms Inr show ?thesis
    by (simp add: write_blob_eq)
qed

lemma blob_bad:
  assumes "sz < 0 \<or> length (buf t) < nat sz"
  shows "ebind (write_bytes t b) (\<lambda>t. write_blob t sz) \<noteq> Inr t'"
proof (cases "write_bytes t b")
  case (Inl e)
  then show ?thesis by simp
next
  case (Inr t1)
  from write_bytes_buf [OF Inr] assms Inr show ?thesis
    by (simp add: write_blob_bad)
qed

lemma answer_tag_cases:
  fixes tg :: u32
  obtains (nop) "tg \<in> answer_val h ` {A_DONE, A_PASS, A_FORK}"
    | (read) "tg \<notin> answer_val h ` {A_DONE, A_PASS, A_FORK}" "tg = answer_val h A_READ"
    | (accs) "tg \<notin> answer_val h ` {A_DONE, A_PASS, A_FORK, A_READ}" "tg = answer_val h A_ACCS"
    | (stat) "tg \<notin> answer_val h ` {A_DONE, A_PASS, A_FORK, A_READ, A_ACCS}" "tg = answer_val h A_STAT"
    | (size) "tg \<notin> answer_val h ` {A_DONE, A_PASS, A_FORK, A_READ, A_ACCS, A_STAT}"
        "tg = answer_val h A_SIZE"
    | (opn) "tg \<notin> answer_val h ` {A_DONE, A_PASS, A_FORK, A_READ, A_ACCS, A_STAT, A_SIZE}"
        "tg = answer_val h A_OPEN"
    | (gpic) "tg \<notin> answer_val h ` {A_DONE, A_PASS, A_FORK, A_READ, A_ACCS, A_STAT, A_SIZE, A_OPEN}"
        "tg = answer_val h A_GPIC"
    | (other) "tg \<notin> answer_val h ` {A_DONE, A_PASS, A_FORK, A_READ, A_ACCS, A_STAT, A_SIZE, A_OPEN, A_GPIC}"
  apply (cases "tg = answer_val h A_DONE", simp)
  apply (cases "tg = answer_val h A_PASS", simp)
  apply (cases "tg = answer_val h A_FORK", simp)
  apply (cases "tg = answer_val h A_READ", simp)
  apply (cases "tg = answer_val h A_ACCS", simp)
  apply (cases "tg = answer_val h A_STAT", simp)
  apply (cases "tg = answer_val h A_SIZE", simp)
  apply (cases "tg = answer_val h A_OPEN", simp)
  apply (cases "tg = answer_val h A_GPIC", simp)
  apply simp
  done

text \<open>What \<^verbatim>\<open>channel_write_answer\<close> does after it has written the tag.\<close>

lemma answer_fields_eq:
  assumes v: "answer_valid h (buf t) a"
  shows "(if answer_t.tag a = answer_val h A_DONE then Inr t
     else if answer_t.tag a = answer_val h A_PASS then Inr t
     else if answer_t.tag a = answer_val h A_FORK then Inr t
     else if answer_t.tag a = answer_val h A_READ then
       ebind (write_u32 h t (word_of_int (answer_t.read_size a))) (\<lambda>t.
       write_blob t (answer_t.read_size a))
     else if answer_t.tag a = answer_val h A_ACCS then
       write_u32 h t (accs_flag a)
     else if answer_t.tag a = answer_val h A_STAT then
       ebind (write_u32 h t (stat_flag a)) (\<lambda>t.
       if accs_flag a = ACCS_OK h then
         ebind (write_u32 h t (dev (stat_stat a))) (\<lambda>t.
         ebind (write_u32 h t (ino (stat_stat a))) (\<lambda>t.
         ebind (write_u32 h t (mode (stat_stat a))) (\<lambda>t.
         ebind (write_u32 h t (nlink (stat_stat a))) (\<lambda>t.
         ebind (write_u32 h t (uid (stat_stat a))) (\<lambda>t.
         ebind (write_u32 h t (gid (stat_stat a))) (\<lambda>t.
         ebind (write_u32 h t (rdev (stat_stat a))) (\<lambda>t.
         ebind (write_u32 h t (size' (stat_stat a))) (\<lambda>t.
         ebind (write_u32 h t (blksize (stat_stat a))) (\<lambda>t.
         ebind (write_u32 h t (blocks (stat_stat a))) (\<lambda>t.
         ebind (write_time h t (atime (stat_stat a))) (\<lambda>t.
         ebind (write_time h t (ctime (stat_stat a))) (\<lambda>t.
         write_time h t (mtime (stat_stat a))))))))))))))
       else Inr t)
     else if answer_t.tag a = answer_val h A_SIZE then
       write_u32 h t (size_size a)
     else if answer_t.tag a = answer_val h A_OPEN then
       ebind (write_u32 h t (word_of_int (open_size a))) (\<lambda>t.
       write_blob t (open_size a))
     else if answer_t.tag a = answer_val h A_GPIC then
       (case gpic_bounds a of (b0, b1, b2, b3) \<Rightarrow>
          ebind (write_f32 h t b0) (\<lambda>t.
          ebind (write_f32 h t b1) (\<lambda>t.
          ebind (write_f32 h t b2) (\<lambda>t.
          write_f32 h t b3))))
     else Inl Mabort) = write_seq t (tl (answer_writes h (buf t) a))"
    (is "?body = _")
proof -
  let ?tg = "answer_t.tag a"
  show ?thesis
  proof (cases ?tg h rule: answer_tag_cases)
    case nop
    then show ?thesis by (auto simp: answer_writes_def)
  next
    case read
    with v have "0 \<le> answer_t.read_size a" "nat (answer_t.read_size a) \<le> length (buf t)"
      by (simp_all add: answer_valid_def)
    from blob_eq [OF this] read show ?thesis
      by (simp add: answer_writes_def write_u32_def ebind_Inr_right)
  next
    case accs
    then show ?thesis by (simp add: answer_writes_def write_u32_def ebind_Inr_right)
  next
    case stat
    then show ?thesis
      by (simp add: answer_writes_def write_u32_def write_time_def stat_writes_def
          ebind_assoc ebind_Inr_right)
  next
    case size
    then show ?thesis by (simp add: answer_writes_def write_u32_def ebind_Inr_right)
  next
    case opn
    with v have "0 \<le> open_size a" "nat (open_size a) \<le> length (buf t)"
      by (simp_all add: answer_valid_def)
    from blob_eq [OF this] opn show ?thesis
      by (simp add: answer_writes_def write_u32_def ebind_Inr_right)
  next
    case gpic
    then show ?thesis
      by (simp add: answer_writes_def write_f32_def ebind_Inr_right split: prod.splits)
  next
    case other
    from v obtain k where "?tg = answer_val h k" by (auto simp: answer_valid_def)
    with other show ?thesis by (cases k) simp_all
  qed
qed

lemma channel_write_answer_eq:
  assumes v: "answer_valid h (buf t) a"
  shows "channel_write_answer h t a = write_seq t (answer_writes h (buf t) a)"
proof (cases "write_u32 h t (answer_t.tag a)")
  case (Inl e)
  then show ?thesis
    by (simp add: channel_write_answer_def answer_writes_def write_u32_def)
next
  case (Inr t1)
  then have b: "buf t1 = buf t" by (simp add: write_u32_def write_bytes_buf)
  with v have "answer_valid h (buf t1) a" by simp
  from answer_fields_eq [OF this] Inr b
  have "channel_write_answer h t a = write_seq t1 (tl (answer_writes h (buf t) a))"
    by (simp add: channel_write_answer_def)
  moreover have "answer_writes h (buf t) a
      = u32_bytes h (answer_t.tag a) # tl (answer_writes h (buf t) a)"
    by (simp add: answer_writes_def)
  ultimately show ?thesis using Inr
    by (metis ebind_simps(2) write_seq.simps(2) write_u32_def)
qed

lemma channel_write_answer_valid:
  assumes r: "channel_write_answer h t a = Inr t'"
  shows "answer_valid h (buf t) a"
proof -
  let ?tg = "answer_t.tag a"
  from r obtain t1 where w: "write_u32 h t ?tg = Inr t1"
    by (cases "write_u32 h t ?tg") (simp_all add: channel_write_answer_def)
  then have b: "buf t1 = buf t" by (simp add: write_u32_def write_bytes_buf)
  show ?thesis
  proof (cases ?tg h rule: answer_tag_cases)
    case nop
    then show ?thesis by (auto simp: answer_valid_def)
  next
    case read
    have "\<not> (answer_t.read_size a < 0 \<or> length (buf t1) < nat (answer_t.read_size a))"
    proof
      assume "answer_t.read_size a < 0 \<or> length (buf t1) < nat (answer_t.read_size a)"
      from blob_bad [OF this] r w read show False
        by (simp add: channel_write_answer_def write_u32_def)
    qed
    with read b show ?thesis by (auto simp: answer_valid_def)
  next
    case accs
    then show ?thesis by (auto simp: answer_valid_def)
  next
    case stat
    then show ?thesis by (auto simp: answer_valid_def)
  next
    case size
    then show ?thesis by (auto simp: answer_valid_def)
  next
    case opn
    have "\<not> (open_size a < 0 \<or> length (buf t1) < nat (open_size a))"
    proof
      assume "open_size a < 0 \<or> length (buf t1) < nat (open_size a)"
      from blob_bad [OF this] r w opn show False
        by (simp add: channel_write_answer_def write_u32_def)
    qed
    with opn b show ?thesis by (auto simp: answer_valid_def)
  next
    case gpic
    then show ?thesis by (auto simp: answer_valid_def)
  next
    case other
    with r w show ?thesis by (simp add: channel_write_answer_def)
  qed
qed

lemma channel_write_ask_writes:
  "channel_write_ask h t a = Inr t' \<Longrightarrow> write_seq t (ask_writes h a) = Inr t'"
  by (cases "write_bytes t (u32_bytes h (ask_t.tag a))")
     (auto simp: channel_write_ask_def ask_writes_def write_u32_def ebind_Inr_right
       split: if_splits)

text \<open>A sequence of encoding calls, each \<^verbatim>\<open>channel_write_answer\<close> or \<^verbatim>\<open>channel_write_ask\<close>,
  and the byte sequences the calls hand to the output writer.\<close>

datatype message = Answer answer_t | Ask ask_t

fun encode :: "sprotocol_h \<Rightarrow> channel_t \<Rightarrow> message \<Rightarrow> error + channel_t" where
  "encode h t (Answer a) = channel_write_answer h t a"
| "encode h t (Ask a) = channel_write_ask h t a"

fun encode_seq :: "sprotocol_h \<Rightarrow> channel_t \<Rightarrow> message list \<Rightarrow> error + channel_t" where
  "encode_seq h t [] = Inr t"
| "encode_seq h t (m # ms) = ebind (encode h t m) (\<lambda>t. encode_seq h t ms)"

fun message_writes :: "sprotocol_h \<Rightarrow> byte list \<Rightarrow> message \<Rightarrow> byte list list" where
  "message_writes h scratch (Answer a) = answer_writes h scratch a"
| "message_writes h scratch (Ask a) = ask_writes h a"

lemma encode_writes:
  "encode h t m = Inr t' \<Longrightarrow> write_seq t (message_writes h (buf t) m) = Inr t'"
proof (cases m)
  case (Answer a)
  assume "encode h t m = Inr t'"
  with Answer have r: "channel_write_answer h t a = Inr t'" by simp
  from channel_write_answer_eq [OF channel_write_answer_valid [OF r]] r Answer
  show ?thesis by simp
next
  case (Ask a)
  assume "encode h t m = Inr t'"
  with Ask show ?thesis by (simp add: channel_write_ask_writes)
qed

lemma write_seq_buf: "write_seq t bss = Inr t' \<Longrightarrow> buf t' = buf t"
proof (induction bss arbitrary: t)
  case Nil
  then show ?case by simp
next
  case (Cons bs bss)
  then obtain t1 where w: "write_bytes t bs = Inr t1" and r: "write_seq t1 bss = Inr t'"
    by (cases "write_bytes t bs") auto
  from Cons.IH [OF r] write_bytes_buf [OF w] show ?case by simp
qed

lemma encode_seq_writes:
  "encode_seq h t ms = Inr t' \<Longrightarrow>
     write_seq t (concat (map (message_writes h (buf t)) ms)) = Inr t'"
proof (induction ms arbitrary: t)
  case Nil
  then show ?case by simp
next
  case (Cons m ms)
  then obtain t1 where e: "encode h t m = Inr t1" and r: "encode_seq h t1 ms = Inr t'"
    by (cases "encode h t m") auto
  note w = encode_writes [OF e]
  from write_seq_buf [OF w] have "buf t1 = buf t" .
  with Cons.IH [OF r] w show ?case by (simp add: write_seq_append)
qed

subsection \<open>An instance of the parameters, and a fresh channel\<close>

text \<open>
  For the evaluations on concrete inputs: a little-endian host on which each enumerator
  has the value that the macro \<^verbatim>\<open>PACK\<close> of \<^verbatim>\<open>sprotocol.c\<close> gives to the four letters of its
  name, and \<^verbatim>\<open>ACCS_OK\<close> is 1.
\<close>

definition PACK :: "u32 \<Rightarrow> u32 \<Rightarrow> u32 \<Rightarrow> u32 \<Rightarrow> u32" where
  "PACK a b c d = (push_bit 24 d OR push_bit 16 c OR push_bit 8 b OR a)"

fun pack_name :: "string \<Rightarrow> u32" where
  "pack_name [a, b, c, d] = PACK (of_char a) (of_char b) (of_char c) (of_char d)"
| "pack_name _ = 0"

definition example_h :: sprotocol_h where
  "example_h =
     \<lparr>query_val = (\<lambda>q. pack_name (case q of
          Q_OPEN \<Rightarrow> ''OPEN'' | Q_READ \<Rightarrow> ''READ'' | Q_WRIT \<Rightarrow> ''WRIT'' | Q_CLOS \<Rightarrow> ''CLOS''
        | Q_SIZE \<Rightarrow> ''SIZE'' | Q_SEEN \<Rightarrow> ''SEEN'' | Q_CHLD \<Rightarrow> ''CHLD'' | Q_BACK \<Rightarrow> ''BACK''
        | Q_ACCS \<Rightarrow> ''ACCS'' | Q_STAT \<Rightarrow> ''STAT'' | Q_GPIC \<Rightarrow> ''GPIC'' | Q_SPIC \<Rightarrow> ''SPIC'')),
      answer_val = (\<lambda>a. pack_name (case a of
          A_DONE \<Rightarrow> ''DONE'' | A_PASS \<Rightarrow> ''PASS'' | A_SIZE \<Rightarrow> ''SIZE'' | A_READ \<Rightarrow> ''READ''
        | A_FORK \<Rightarrow> ''FORK'' | A_ACCS \<Rightarrow> ''ACCS'' | A_STAT \<Rightarrow> ''STAT'' | A_OPEN \<Rightarrow> ''OPEN''
        | A_GPIC \<Rightarrow> ''GPIC'')),
      ask_val = (\<lambda>c. pack_name (case c of C_TERM \<Rightarrow> ''TERM'' | C_FLSH \<Rightarrow> ''FLSH'')),
      ACCS_OK = 1,
      order = LittleEndian\<rparr>"

text \<open>The channel that \<^verbatim>\<open>channel_new\<close> returns when no allocation fails.\<close>

definition fresh_channel :: "stream \<Rightarrow> channel_t" where
  "fresh_channel s =
     \<lparr>fd = s,
      input_buffer = replicate BUF_SIZE 0, input_pos = 0, input_len = 0,
      output_buffer = replicate BUF_SIZE 0, output_pos = 0,
      buf = replicate 256 0, buf_size = 256, buf_id = 0, heap = []\<rparr>"

lemma channel_new_fresh: "channel_new s [] = Inr (fresh_channel s)"
  by (simp add: channel_new_def fresh_channel_def)

lemma example_answer_vals:
  "answer_val example_h A_DONE = 0x454E4F44"
  "answer_val example_h A_PASS = 0x53534150"
  "answer_val example_h A_SIZE = 0x455A4953"
  "answer_val example_h A_READ = 0x44414552"
  "answer_val example_h A_FORK = 0x4B524F46"
  "answer_val example_h A_ACCS = 0x53434341"
  "answer_val example_h A_STAT = 0x54415453"
  "answer_val example_h A_OPEN = 0x4E45504F"
  "answer_val example_h A_GPIC = 0x43495047"
  by (simp_all add: example_h_def PACK_def)

lemma example_query_vals:
  "query_val example_h Q_OPEN = 0x4E45504F"
  "query_val example_h Q_READ = 0x44414552"
  "query_val example_h Q_WRIT = 0x54495257"
  "query_val example_h Q_CLOS = 0x534F4C43"
  "query_val example_h Q_SIZE = 0x455A4953"
  "query_val example_h Q_SEEN = 0x4E454553"
  "query_val example_h Q_CHLD = 0x444C4843"
  "query_val example_h Q_BACK = 0x4B434142"
  "query_val example_h Q_ACCS = 0x53434341"
  "query_val example_h Q_STAT = 0x54415453"
  "query_val example_h Q_GPIC = 0x43495047"
  "query_val example_h Q_SPIC = 0x43495053"
  by (simp_all add: example_h_def PACK_def)

lemma inj_example_answer_val: "inj (answer_val example_h)"
proof (rule injI)
  fix x y assume "answer_val example_h x = answer_val example_h y"
  then show "x = y"
    by (cases x; cases y; simp add: example_answer_vals)
qed

lemma inj_example_query_val: "inj (query_val example_h)"
proof (rule injI)
  fix x y assume "query_val example_h x = query_val example_h y"
  then show "x = y"
    by (cases x; cases y; simp add: example_query_vals)
qed

lemma length_u32_bytes [simp]: "length (u32_bytes h w) = 4"
  by (simp add: u32_bytes_def u32_le_def)

lemma example_u32_bytes:
  "u32_bytes example_h 0x44414552 = [0x52, 0x45, 0x41, 0x44]"
  "u32_bytes example_h 5 = [5, 0, 0, 0]"
  by (simp_all add: u32_bytes_def u32_le_def example_h_def)

lemma large_write_delivered:
  assumes ok: "output_ok t" and big: "BUF_SIZE < length bs" and w: "write_bytes t bs = Inr t'"
  shows "delivered (fd t') = sent t @ bs \<and> output_pos t' = 0"
proof -
  from big have nf: "\<not> output_pos t + length bs \<le> BUF_SIZE" by simp
  with w obtain t1 where fl: "cflush t = Inr t1"
    by (cases "cflush t") (auto simp: write_bytes_def Let_def)
  note f = cflush_sent [OF ok fl]
  from nf big w fl obtain s' where wa: "write_all (fd t1) bs = Inr s'" and t': "t' = t1\<lparr>fd := s'\<rparr>"
    by (cases "write_all (fd t1) bs") (auto simp: write_bytes_def Let_def)
  from write_all_delivered [OF wa] t' f show ?thesis by simp
qed

lemma flush_after_writes:
  assumes ok: "output_ok t" and w: "write_seq t bss = Inr t1" and fl: "channel_flush t1 = Inr t2"
  shows "delivered (fd t2) = sent t @ concat bss \<and> output_pos t2 = 0"
proof -
  note s = write_seq_sent [OF ok w]
  then have ok1: "output_ok t1" by simp
  from fl have "cflush t1 = Inr t2" by (simp add: channel_flush_def)
  from cflush_sent [OF ok1 this] s show ?thesis by simp
qed

lemma writes_then_flush_ok:
  assumes ok: "output_ok t" and w: "list_all wr_ok (writes (fd t))"
  shows "\<exists>t1 t2. write_seq t bss = Inr t1 \<and> channel_flush t1 = Inr t2"
proof -
  from write_seq_ok [OF ok w, of bss] obtain t1 where
    w1: "write_seq t bss = Inr t1" and ok1: "list_all wr_ok (writes (fd t1))" by blast
  from write_seq_sent [OF ok w1] have "output_ok t1" by simp
  from cflush_ok [OF this ok1] w1 show ?thesis by (auto simp: channel_flush_def)
qed

section \<open>The claims on the write path\<close>

text \<open>
  C8. For every sequence of encoding calls on a channel followed by \<^verbatim>\<open>channel_flush\<close>, the
  bytes delivered to the stream are the concatenation, in call order, of the byte
  sequences passed to the output writer \<^verbatim>\<open>write_bytes\<close>, however the writes split across
  the 4096-byte staging buffer; a payload larger than the staging buffer goes to the
  stream directly, after the staged bytes. Here \<open>sent t\<close> is what the channel had put out
  before (delivered or staged); the statement holds for every run that does not abort,
  and no run aborts on a stream that takes at least one byte at each \<^verbatim>\<open>write\<close>.
\<close>

theorem flush_delivers_writes_in_call_order:
  assumes "output_ok t"
  shows "(write_seq t bss = Inr t1 \<and> channel_flush t1 = Inr t2 \<longrightarrow>
            delivered (fd t2) = sent t @ concat bss \<and> output_pos t2 = 0)
       \<and> (encode_seq h t ms = Inr t3 \<and> channel_flush t3 = Inr t4 \<longrightarrow>
            delivered (fd t4) = sent t @ concat (concat (map (message_writes h (buf t)) ms)))
       \<and> (BUF_SIZE < length bs \<and> write_bytes t bs = Inr t5 \<longrightarrow>
            delivered (fd t5) = sent t @ bs \<and> output_pos t5 = 0)
       \<and> (list_all wr_ok (writes (fd t)) \<longrightarrow>
            (\<exists>t1 t2. write_seq t bss = Inr t1 \<and> channel_flush t1 = Inr t2))"
proof (intro conjI impI)
  assume "write_seq t bss = Inr t1 \<and> channel_flush t1 = Inr t2"
  with flush_after_writes [OF assms, of bss t1 t2]
  show "delivered (fd t2) = sent t @ concat bss" "output_pos t2 = 0" by simp_all
next
  assume e: "encode_seq h t ms = Inr t3 \<and> channel_flush t3 = Inr t4"
  then have "write_seq t (concat (map (message_writes h (buf t)) ms)) = Inr t3"
    by (simp add: encode_seq_writes)
  from flush_after_writes [OF assms this] e
  show "delivered (fd t4) = sent t @ concat (concat (map (message_writes h (buf t)) ms))"
    by simp
next
  assume b: "BUF_SIZE < length bs \<and> write_bytes t bs = Inr t5"
  with large_write_delivered [OF assms, of bs t5]
  show "delivered (fd t5) = sent t @ bs" "output_pos t5 = 0" by simp_all
next
  assume "list_all wr_ok (writes (fd t))"
  from writes_then_flush_ok [OF assms this]
  show "\<exists>t1 t2. write_seq t bss = Inr t1 \<and> channel_flush t1 = Inr t2" .
qed

definition slow_stream :: stream where
  "slow_stream = \<lparr>reads = [], writes = [WrIntr, WrAccept 3, WrAccept 1], delivered = []\<rparr>"

lemma output_ok_fresh: "output_ok (fresh_channel s)"
  by (simp add: output_ok_def fresh_channel_def)

lemma sent_fresh: "sent (fresh_channel s) = delivered s"
  by (simp add: sent_def fresh_channel_def)

theorem flush_delivers_writes_in_call_order_witness:
  "output_ok (fresh_channel slow_stream)
   \<and> list_all wr_ok (writes (fd (fresh_channel slow_stream)))
   \<and> (\<exists>t1 t2. write_seq (fresh_channel slow_stream) [[1, 2, 3], replicate 5000 7, [4]] = Inr t1
        \<and> channel_flush t1 = Inr t2
        \<and> delivered (fd t2) = [1, 2, 3] @ replicate 5000 7 @ [4]
        \<and> output_pos t2 = 0)
   \<and> (\<exists>t5. write_bytes (fresh_channel slow_stream) (replicate 5000 7) = Inr t5
        \<and> delivered (fd t5) = replicate 5000 7)"
proof -
  let ?t = "fresh_channel slow_stream"
  let ?bss = "[[1, 2, 3], replicate 5000 7, [4 :: byte]]"
  have ok: "output_ok ?t" by (rule output_ok_fresh)
  have w: "list_all wr_ok (writes (fd ?t))" by (simp add: fresh_channel_def slow_stream_def)
  note th = flush_delivers_writes_in_call_order [OF ok]
  from th [of ?bss] w obtain t1 t2 where
    r: "write_seq ?t ?bss = Inr t1" "channel_flush t1 = Inr t2" by blast
  with th [of ?bss t1 t2] have d: "delivered (fd t2) = sent ?t @ concat ?bss" "output_pos t2 = 0"
    by blast+
  from write_bytes_ok [OF ok w, of "replicate 5000 7"] obtain t5 where
    w5: "write_bytes ?t (replicate 5000 7) = Inr t5" by blast
  with th [of _ _ _ _ _ _ _ "replicate 5000 7" t5]
  have d5: "delivered (fd t5) = sent ?t @ replicate 5000 7" by (simp add: BUF_SIZE_def)
  from ok w r d w5 d5 show ?thesis
    by (auto simp: sent_fresh slow_stream_def)
qed

lemma inj_neq: "inj f \<Longrightarrow> x \<noteq> y \<Longrightarrow> f x \<noteq> f y"
  by (auto dest: injD)

lemma stat_answer_writes:
  assumes i: "inj (answer_val h)" and tg: "answer_t.tag a = answer_val h A_STAT"
  shows "answer_valid h scratch a"
    and "answer_writes h scratch a =
           [u32_bytes h (answer_val h A_STAT), u32_bytes h (stat_flag a)]
           @ (if accs_flag a = ACCS_OK h then stat_writes h (stat_stat a) else [])"
  using tg by (auto simp: answer_valid_def answer_writes_def inj_neq [OF i])

lemma length_stat_record [simp]: "length (concat (stat_writes h st)) = 64"
  by (simp add: stat_writes_def)

lemma answer_sent:
  assumes ok: "output_ok t" and r: "channel_write_answer h t a = Inr t'"
  shows "sent t' = sent t @ concat (answer_writes h (buf t) a)"
proof -
  from channel_write_answer_eq [OF channel_write_answer_valid [OF r]] r
  have "write_seq t (answer_writes h (buf t) a) = Inr t'" by simp
  from write_seq_sent [OF ok this] show ?thesis by simp
qed

lemma valid_answer_ok:
  assumes ok: "output_ok t" and w: "list_all wr_ok (writes (fd t))"
    and v: "answer_valid h (buf t) a"
  shows "\<exists>t'. channel_write_answer h t a = Inr t' \<and> list_all wr_ok (writes (fd t'))
            \<and> output_ok t'"
proof -
  from write_seq_ok [OF ok w, of "answer_writes h (buf t) a"] obtain t' where
    s: "write_seq t (answer_writes h (buf t) a) = Inr t'" and w': "list_all wr_ok (writes (fd t'))"
    by blast
  from write_seq_sent [OF ok s] have "output_ok t'" by simp
  with s w' channel_write_answer_eq [OF v] show ?thesis by simp
qed

text \<open>
  C2. When \<^verbatim>\<open>channel_write_answer\<close> encodes an \<^verbatim>\<open>A_STAT\<close> answer it writes the tag and the
  flag \<^verbatim>\<open>a->stat.flag\<close>, and then the record of 13 fields (ten integers and three
  timestamps of two integers each, 64 bytes) exactly when the flag it tests, the member
  \<^verbatim>\<open>a->accs.flag\<close> of the answer, equals \<^verbatim>\<open>ACCS_OK\<close>; otherwise no record byte is written and
  the frame is 8 bytes. The encoder does not abort on a stream that takes at least one
  byte at each \<^verbatim>\<open>write\<close>.
\<close>

theorem stat_answer_record_only_on_success:
  assumes "output_ok t" and "inj (answer_val h)" and "answer_t.tag a = answer_val h A_STAT"
  shows "(channel_write_answer h t a = Inr t' \<longrightarrow>
            sent t' = sent t @ u32_bytes h (answer_val h A_STAT) @ u32_bytes h (stat_flag a)
                      @ (if accs_flag a = ACCS_OK h then concat (stat_writes h (stat_stat a)) else [])
            \<and> length (sent t') = length (sent t) + (if accs_flag a = ACCS_OK h then 8 + 64 else 8))
       \<and> (list_all wr_ok (writes (fd t)) \<longrightarrow> (\<exists>t'. channel_write_answer h t a = Inr t'))"
proof (intro conjI impI)
  assume r: "channel_write_answer h t a = Inr t'"
  from answer_sent [OF assms(1) r] stat_answer_writes(2) [OF assms(2,3), of "buf t"]
  show "sent t' = sent t @ u32_bytes h (answer_val h A_STAT) @ u32_bytes h (stat_flag a)
                      @ (if accs_flag a = ACCS_OK h then concat (stat_writes h (stat_stat a)) else [])"
    by simp
  then show "length (sent t') = length (sent t) + (if accs_flag a = ACCS_OK h then 8 + 64 else 8)"
    by simp
next
  assume w: "list_all wr_ok (writes (fd t))"
  from valid_answer_ok [OF assms(1) w stat_answer_writes(1) [OF assms(2,3)]]
  show "\<exists>t'. channel_write_answer h t a = Inr t'" by blast
qed

lemma example_h_simps:
  "u32_bytes example_h w = u32_le w"
  "bytes_u32 example_h bs = le_u32 bs"
  "ACCS_OK example_h = 1"
  by (simp_all add: u32_bytes_def bytes_u32_def example_h_def)

definition example_stat :: stat_answer where
  "example_stat =
     \<lparr>dev = 1, ino = 2, mode = 3, nlink = 4, uid = 5, gid = 6, rdev = 7, size' = 8,
      blksize = 9, blocks = 10, atime = \<lparr>sec = 11, nsec = 12\<rparr>,
      ctime = \<lparr>sec = 13, nsec = 14\<rparr>, mtime = \<lparr>sec = 15, nsec = 16\<rparr>\<rparr>"

text \<open>An \<^verbatim>\<open>A_STAT\<close> answer with the flag \<open>f\<close> in both flag members.\<close>

definition stat_reply :: "u32 \<Rightarrow> answer_t" where
  "stat_reply f =
     \<lparr>answer_t.tag = answer_val example_h A_STAT, size_size = 0, answer_t.read_size = 0,
      open_size = 0,
      accs_flag = f, stat_flag = f, stat_stat = example_stat, gpic_bounds = (0, 0, 0, 0)\<rparr>"

theorem stat_answer_record_only_on_success_witness:
  "output_ok (fresh_channel slow_stream) \<and> inj (answer_val example_h)
   \<and> answer_t.tag (stat_reply 2) = answer_val example_h A_STAT
   \<and> list_all wr_ok (writes (fd (fresh_channel slow_stream)))
   \<and> (\<exists>t'. channel_write_answer example_h (fresh_channel slow_stream) (stat_reply 2) = Inr t'
         \<and> sent t' = [0x53, 0x54, 0x41, 0x54, 2, 0, 0, 0])
   \<and> (\<exists>t'. channel_write_answer example_h (fresh_channel slow_stream) (stat_reply 1) = Inr t'
         \<and> length (sent t') = 72)"
proof -
  let ?t = "fresh_channel slow_stream"
  have ok: "output_ok ?t" by (rule output_ok_fresh)
  have w: "list_all wr_ok (writes (fd ?t))" by (simp add: fresh_channel_def slow_stream_def)
  have tg: "answer_t.tag (stat_reply f) = answer_val example_h A_STAT" for f
    by (simp add: stat_reply_def)
  note th = stat_answer_record_only_on_success [OF ok inj_example_answer_val tg]
  from th [of 2] w obtain t2 where r2: "channel_write_answer example_h ?t (stat_reply 2) = Inr t2"
    by blast
  with th [of 2 t2] have s2: "sent t2 = [0x53, 0x54, 0x41, 0x54, 2, 0, 0, 0]"
    by (simp add: sent_fresh slow_stream_def stat_reply_def example_answer_vals
        example_h_simps u32_le_def)
  from th [of 1] w obtain t1 where r1: "channel_write_answer example_h ?t (stat_reply 1) = Inr t1"
    by blast
  with th [of 1 t1] have s1: "length (sent t1) = 72"
    by (simp add: sent_fresh slow_stream_def stat_reply_def example_h_simps(3))
  from ok w tg r1 r2 s1 s2 inj_example_answer_val show ?thesis by blast
qed

lemma read_answer_writes:
  assumes i: "inj (answer_val h)" and tg: "answer_t.tag a = answer_val h A_READ"
    and sz: "0 \<le> answer_t.read_size a" "nat (answer_t.read_size a) \<le> length scratch"
  shows "answer_valid h scratch a"
    and "answer_writes h scratch a =
           [u32_bytes h (answer_val h A_READ), u32_bytes h (word_of_int (answer_t.read_size a)),
            take (nat (answer_t.read_size a)) scratch]"
  using tg sz by (auto simp: answer_valid_def answer_writes_def inj_neq [OF i])

lemma read5_delivered:
  assumes ok: "output_ok t" and i: "inj (answer_val h)"
    and tg: "answer_t.tag a = answer_val h A_READ"
    and sz: "answer_t.read_size a = 5" and staged: "take 5 (buf t) = [1, 2, 3, 4, 5]"
  shows "channel_write_answer h t a = Inr t1 \<Longrightarrow> channel_flush t1 = Inr t2 \<Longrightarrow>
           delivered (fd t2) = sent t @ u32_bytes h (answer_val h A_READ) @ u32_bytes h 5 @ [1, 2, 3, 4, 5]"
    and "list_all wr_ok (writes (fd t)) \<Longrightarrow>
           \<exists>t1 t2. channel_write_answer h t a = Inr t1 \<and> channel_flush t1 = Inr t2"
proof -
  from arg_cong [OF staged, of length] have len: "5 \<le> length (buf t)"
    by simp
  have sz': "0 \<le> answer_t.read_size a" "nat (answer_t.read_size a) \<le> length (buf t)"
    using sz len by simp_all
  note rw = read_answer_writes [OF i tg sz']
  {
    assume r: "channel_write_answer h t a = Inr t1" and fl: "channel_flush t1 = Inr t2"
    from r channel_write_answer_eq [OF rw(1)]
    have "write_seq t (answer_writes h (buf t) a) = Inr t1" by simp
    from flush_after_writes [OF ok this fl] rw(2) sz staged
    show "delivered (fd t2) = sent t @ u32_bytes h (answer_val h A_READ) @ u32_bytes h 5 @ [1, 2, 3, 4, 5]"
      by simp
  }
  {
    assume w: "list_all wr_ok (writes (fd t))"
    from valid_answer_ok [OF ok w rw(1)] obtain t1 where
      r: "channel_write_answer h t a = Inr t1" and w1: "list_all wr_ok (writes (fd t1))"
      and ok1: "output_ok t1" by blast
    from cflush_ok [OF ok1 w1] r
    show "\<exists>t1 t2. channel_write_answer h t a = Inr t1 \<and> channel_flush t1 = Inr t2"
      by (auto simp: channel_flush_def)
  }
qed

text \<open>A fresh channel with the five payload bytes staged at the start of the scratch
  buffer, and an \<^verbatim>\<open>A_READ\<close> answer of size 5.\<close>

definition staged5 :: channel_t where
  "staged5 = (fresh_channel slow_stream)\<lparr>buf := [1, 2, 3, 4, 5] @ replicate 251 0\<rparr>"

definition read5 :: answer_t where
  "read5 =
     \<lparr>answer_t.tag = answer_val example_h A_READ, size_size = 0, answer_t.read_size = 5,
      open_size = 0, accs_flag = 0, stat_flag = 0, stat_stat = example_stat,
      gpic_bounds = (0, 0, 0, 0)\<rparr>"

lemma staged5_facts:
  "output_ok staged5" "take 5 (buf staged5) = [1, 2, 3, 4, 5]"
  "list_all wr_ok (writes (fd staged5))" "sent staged5 = []"
  by (simp_all add: staged5_def output_ok_def fresh_channel_def slow_stream_def sent_def)

lemma read5_facts:
  "answer_t.tag read5 = answer_val example_h A_READ" "answer_t.read_size read5 = 5"
  by (simp_all add: read5_def)

text \<open>
  C7, as stated: encoding an \<^verbatim>\<open>A_READ\<close> answer of size 5 and flushing delivers a frame of
  12 bytes. On the fresh channel with the payload staged, the code delivers the tag, the
  size and the five payload bytes: 13 bytes.
\<close>

theorem read_answer_frame_is_not_12_bytes:
  "map_sum id (\<lambda>t. (delivered (fd t), length (delivered (fd t))))
     (ebind (channel_write_answer example_h staged5 read5) channel_flush)
   = Inr ([0x52, 0x45, 0x41, 0x44, 5, 0, 0, 0, 1, 2, 3, 4, 5], 13)"
proof -
  note f = staged5_facts and r = read5_facts
  from read5_delivered(2) [OF f(1) inj_example_answer_val r f(2) f(3)] obtain t1 t2 where
    w: "channel_write_answer example_h staged5 read5 = Inr t1" and fl: "channel_flush t1 = Inr t2"
    by blast
  from read5_delivered(1) [OF f(1) inj_example_answer_val r f(2) w fl]
  have "delivered (fd t2) = [0x52, 0x45, 0x41, 0x44, 5, 0, 0, 0, 1, 2, 3, 4, 5]"
    by (simp add: f(4) example_answer_vals example_h_simps u32_le_def)
  with w fl show ?thesis by simp
qed

text \<open>
  C7, amended. Encoding an \<^verbatim>\<open>A_READ\<close> answer with size 5 whose payload bytes 1, 2, 3, 4, 5 are
  staged in the scratch buffer, followed by a flush, delivers to the stream, after what
  the channel had put out before, exactly the 13-byte frame: the tag, the size 5, then
  the five payload bytes, in that order. This holds for every run that does not abort,
  and no run aborts on a stream that takes at least one byte at each \<^verbatim>\<open>write\<close>.
\<close>

theorem read_answer_frame_delivered:
  assumes "output_ok t" and "inj (answer_val h)"
    and "answer_t.tag a = answer_val h A_READ"
    and "answer_t.read_size a = 5" and "take 5 (buf t) = [1, 2, 3, 4, 5]"
  shows "(channel_write_answer h t a = Inr t1 \<and> channel_flush t1 = Inr t2 \<longrightarrow>
            delivered (fd t2)
              = sent t @ u32_bytes h (answer_val h A_READ) @ u32_bytes h 5 @ [1, 2, 3, 4, 5])
       \<and> length (u32_bytes h (answer_val h A_READ) @ u32_bytes h 5 @ [1, 2, 3, 4, 5]) = 13
       \<and> (list_all wr_ok (writes (fd t)) \<longrightarrow>
            (\<exists>t1 t2. channel_write_answer h t a = Inr t1 \<and> channel_flush t1 = Inr t2))"
  using read5_delivered [OF assms] by simp

theorem read_answer_frame_delivered_witness:
  "output_ok staged5 \<and> inj (answer_val example_h)
   \<and> answer_t.tag read5 = answer_val example_h A_READ
   \<and> answer_t.read_size read5 = 5 \<and> take 5 (buf staged5) = [1, 2, 3, 4, 5]
   \<and> list_all wr_ok (writes (fd staged5))
   \<and> (\<exists>t1 t2. channel_write_answer example_h staged5 read5 = Inr t1 \<and> channel_flush t1 = Inr t2
         \<and> delivered (fd t2) = [0x52, 0x45, 0x41, 0x44, 5, 0, 0, 0, 1, 2, 3, 4, 5])"
proof -
  note f = staged5_facts and r = read5_facts
  note th = read_answer_frame_delivered [OF f(1) inj_example_answer_val r f(2)]
  from th f(3) obtain t1 t2 where
    w: "channel_write_answer example_h staged5 read5 = Inr t1" "channel_flush t1 = Inr t2"
    by blast
  with th [of t1 t2]
  have "delivered (fd t2) = [0x52, 0x45, 0x41, 0x44, 5, 0, 0, 0, 1, 2, 3, 4, 5]"
    by (simp add: f(4) example_answer_vals example_h_simps u32_le_def)
  with w f r inj_example_answer_val show ?thesis by blast
qed

section \<open>Properties of the read path\<close>

text \<open>The bytes the stream will still deliver, and a stream whose coming \<^verbatim>\<open>read\<close> calls
  neither fail nor return zero bytes before the peer closes it.\<close>

fun data_of :: "rd_event \<Rightarrow> byte list" where
  "data_of (RdData bs) = bs"
| "data_of RdIntr = []"
| "data_of RdFail = []"

definition pending :: "stream \<Rightarrow> byte list" where
  "pending s = concat (map data_of (reads s))"

fun rd_ok :: "rd_event \<Rightarrow> bool" where
  "rd_ok RdIntr = True"
| "rd_ok RdFail = False"
| "rd_ok (RdData bs) = (bs \<noteq> [])"

lemma sys_read_EINTR_eq:
  "sys_read s n = (EINTR, s') \<Longrightarrow>
     pending s' = pending s \<and> writes s' = writes s \<and> delivered s' = delivered s"
  by (cases "reads s") (auto simp: sys_read.simps pending_def split: rd_event.splits)

lemma sys_read_Got_eq:
  "sys_read s n = (Got bs, s') \<Longrightarrow>
     bs = take (length bs) (pending s) \<and> pending s' = drop (length bs) (pending s) \<and>
     length bs \<le> n \<and> writes s' = writes s \<and> delivered s' = delivered s"
  by (cases "reads s")
     (auto simp: sys_read.simps pending_def min_def split: rd_event.splits)

lemma read_all_loop_result:
  "read_all_loop s acc n = Inr (bs, s') \<Longrightarrow>
     bs = acc @ take n (pending s) \<and> n \<le> length (pending s) \<and>
     pending s' = drop n (pending s) \<and> writes s' = writes s \<and> delivered s' = delivered s"
proof (induction s acc n arbitrary: bs s' rule: read_all_loop.induct)
  case (1 s acc n)
  show ?case
  proof (cases "n = 0")
    case True
    with "1.prems" show ?thesis by (simp add: read_all_loop.simps)
  next
    case False
    then have pos: "0 < n" by simp
    obtain r s1 where sr: "(r, s1) = sys_read s n" by (cases "sys_read s n") simp
    show ?thesis
    proof (cases r)
      case EINTR
      with sr pos "1.prems" have rec: "read_all_loop s1 acc n = Inr (bs, s')"
        by (simp add: read_all_loop.simps [of s acc n] split: prod.splits)
      from sys_read_EINTR_eq [of s n s1] sr EINTR
      have e: "pending s1 = pending s" "writes s1 = writes s" "delivered s1 = delivered s"
        by simp_all
      from "1.IH"(1) [OF pos sr EINTR rec] show ?thesis unfolding e .
    next
      case EFAIL
      with sr pos "1.prems" show ?thesis
        by (simp add: read_all_loop.simps [of s acc n] split: prod.splits)
    next
      case (Got b)
      with sr pos "1.prems" have ne: "length b \<noteq> 0"
        and rec: "read_all_loop s1 (acc @ b) (n - length b) = Inr (bs, s')"
        by (auto simp: read_all_loop.simps [of s acc n] split: if_splits prod.splits)
      note ih = "1.IH"(2) [OF pos sr Got ne rec]
      define k where "k = length b"
      define p where "p = pending s"
      from sys_read_Got_eq [of s n b s1] sr Got have g:
        "b = take k p" "pending s1 = drop k p"
        "k \<le> n" "writes s1 = writes s" "delivered s1 = delivered s"
        by (simp_all add: k_def p_def)
      have lb: "length b = k" by (simp add: k_def)
      from ih [unfolded lb g(2) g(4) g(5)] have ih':
        "bs = (acc @ b) @ take (n - k) (drop k p)" "n - k \<le> length (drop k p)"
        "pending s' = drop (n - k) (drop k p)" "writes s' = writes s" "delivered s' = delivered s"
        by blast+
      have t: "take k p @ take (n - k) (drop k p) = take n p"
        using g(3) by (metis le_add_diff_inverse take_add)
      have "bs = acc @ take n p"
        unfolding ih'(1) t [symmetric] using g(1) by simp
      moreover have "k \<le> length p"
        using arg_cong [OF g(1), of length] lb by simp
      then have "n \<le> length p" using ih'(2) g(3) by simp
      moreover have "pending s' = drop n p" using ih'(3) g(3) by simp
      ultimately show ?thesis using ih'(4,5) by (simp add: p_def)
    qed
  qed
qed

lemma read_all_loop_ok:
  "list_all rd_ok (reads s) \<Longrightarrow> n \<le> length (pending s) \<Longrightarrow>
     \<exists>bs s'. read_all_loop s acc n = Inr (bs, s') \<and> list_all rd_ok (reads s')"
proof (induction s acc n rule: read_all_loop.induct)
  case (1 s acc n)
  show ?case
  proof (cases "n = 0")
    case True
    with "1.prems" show ?thesis by (simp add: read_all_loop.simps)
  next
    case False
    then have pos: "0 < n" by simp
    show ?thesis
    proof (cases "reads s")
      case Nil
      with "1.prems" False show ?thesis by (simp add: pending_def)
    next
      case (Cons e es)
      with "1.prems" have ok: "rd_ok e" "list_all rd_ok es" by simp_all
      show ?thesis
      proof (cases e)
        case RdIntr
        with Cons have sr: "sys_read s n = (EINTR, s\<lparr>reads := es\<rparr>)"
          by (simp add: sys_read.simps)
        have "list_all rd_ok (reads (s\<lparr>reads := es\<rparr>))" using ok by simp
        moreover have "n \<le> length (pending (s\<lparr>reads := es\<rparr>))"
          using "1.prems"(2) Cons RdIntr by (simp add: pending_def)
        ultimately show ?thesis
          using "1.IH"(1) [OF pos sr [symmetric] refl] sr pos
          by (simp add: read_all_loop.simps [of s acc n])
      next
        case RdFail
        with ok show ?thesis by simp
      next
        case (RdData b)
        let ?s1 = "s\<lparr>reads := (if length b \<le> n then es else RdData (drop n b) # es)\<rparr>"
        from RdData Cons have sr: "sys_read s n = (Got (take n b), ?s1)"
          by (simp add: sys_read.simps)
        from ok RdData pos have ne: "length (take n b) \<noteq> 0" by simp
        have ok1: "list_all rd_ok (reads ?s1)" using ok by simp
        have "pending ?s1 = drop (length (take n b)) (pending s)"
          using sys_read_Got_eq [OF sr] by blast
        with "1.prems"(2) have "n - length (take n b) \<le> length (pending ?s1)" by simp
        from "1.IH"(2) [OF pos sr [symmetric] refl ne ok1 this] sr pos ne
        show ?thesis by (simp add: read_all_loop.simps [of s acc n])
      qed
    qed
  qed
qed

lemma read_all_result:
  "read_all s n = Inr (bs, s') \<Longrightarrow>
     bs = take n (pending s) \<and> n \<le> length (pending s) \<and> pending s' = drop n (pending s) \<and>
     writes s' = writes s \<and> delivered s' = delivered s"
  using read_all_loop_result [of s "[]" n bs s'] by (simp add: read_all_def)

lemma read_all_ok:
  "list_all rd_ok (reads s) \<Longrightarrow> n \<le> length (pending s) \<Longrightarrow>
     \<exists>bs s'. read_all s n = Inr (bs, s') \<and> list_all rd_ok (reads s')"
  using read_all_loop_ok [of s n "[]"] by (simp add: read_all_def)

lemma strncmp_no_nul:
  "n \<le> length s1 \<Longrightarrow> n \<le> length s2 \<Longrightarrow> 0 \<notin> set (take n s1) \<Longrightarrow>
     \<exists>c. strncmp s1 s2 n = Inr c \<and> (c = 0 \<longleftrightarrow> take n s2 = take n s1)"
proof (induction n arbitrary: s1 s2)
  case 0
  then show ?case by simp
next
  case (Suc n)
  from Suc.prems obtain c1 r1 c2 r2 where s: "s1 = c1 # r1" "s2 = c2 # r2"
    by (cases s1; cases s2) auto
  with Suc.prems have "n \<le> length r1" "n \<le> length r2" "0 \<notin> set (take n r1)" "c1 \<noteq> 0"
    by auto
  with Suc.IH [of r1 r2] s show ?case by auto
qed

lemma handshake_literals:
  "peek HND_SERVER 0 (LEN HND_SERVER) = Inr (map of_char ''TEXPRESSOS01'')"
  "LEN HND_CLIENT = 12"
  "take 12 HND_CLIENT = map of_char ''TEXPRESSOC01''"
  "0 \<notin> set (take 12 HND_CLIENT)"
  "length HND_CLIENT = 13"
  by (simp_all add: HND_SERVER_def HND_CLIENT_def literal_def LEN_def peek_def)

lemma handshake_compare:
  assumes "length ans = 12"
  shows "strncmp HND_CLIENT ans (LEN HND_CLIENT) = Inr c \<Longrightarrow>
           (c = 0) = (ans = map of_char ''TEXPRESSOC01'')"
    and "\<exists>c. strncmp HND_CLIENT ans (LEN HND_CLIENT) = Inr c"
  using strncmp_no_nul [of 12 HND_CLIENT ans] assms
  by (auto simp: handshake_literals)

lemma channel_handshake_result:
  assumes r: "channel_handshake c = Inr (b, c')"
  shows "delivered (fd c') = delivered (fd c) @ map of_char ''TEXPRESSOS01''
       \<and> 12 \<le> length (pending (fd c))
       \<and> pending (fd c') = drop 12 (pending (fd c))
       \<and> b = (take 12 (pending (fd c)) = map of_char ''TEXPRESSOC01'')
       \<and> c' = c\<lparr>fd := fd c'\<rparr>"
proof -
  from r obtain s1 where w: "write_all (fd c) (map of_char ''TEXPRESSOS01'') = Inr s1"
    by (cases "write_all (fd c) (map of_char ''TEXPRESSOS01'')")
       (simp_all add: channel_handshake_def handshake_literals)
  with r obtain ans s2 where rd: "read_all s1 12 = Inr (ans, s2)"
    by (cases "read_all s1 12") (auto simp: channel_handshake_def handshake_literals)
  with r w obtain cmp where cm: "strncmp HND_CLIENT ans (LEN HND_CLIENT) = Inr cmp"
    and res: "b = (cmp = 0)" "c' = c\<lparr>fd := s2\<rparr>"
    by (cases "strncmp HND_CLIENT ans (LEN HND_CLIENT)")
       (auto simp: channel_handshake_def handshake_literals)
  note wd = write_all_delivered [OF w]
  note rr = read_all_result [OF rd]
  have p1: "pending s1 = pending (fd c)" using wd by (simp add: pending_def)
  from rr p1 have la: "length ans = 12" by simp
  from handshake_compare(1) [OF la cm] res rr wd p1 show ?thesis by simp
qed

lemma channel_handshake_ok:
  assumes w: "list_all wr_ok (writes (fd c))" and rk: "list_all rd_ok (reads (fd c))"
    and n: "12 \<le> length (pending (fd c))"
  shows "\<exists>b c'. channel_handshake c = Inr (b, c')"
proof -
  from write_all_ok [OF w, of "map of_char ''TEXPRESSOS01''"] obtain s1 where
    w1: "write_all (fd c) (map of_char ''TEXPRESSOS01'') = Inr s1" by blast
  from write_all_delivered [OF w1] have rs: "reads s1 = reads (fd c)" by simp
  then have "pending s1 = pending (fd c)" by (simp add: pending_def)
  with read_all_ok [of s1 12] rk rs n obtain ans s2 where rd: "read_all s1 12 = Inr (ans, s2)"
    by auto
  from read_all_result [OF rd] \<open>pending s1 = pending (fd c)\<close> n have "length ans = 12" by simp
  from handshake_compare(2) [OF this] obtain cmp where
    "strncmp HND_CLIENT ans (LEN HND_CLIENT) = Inr cmp" by blast
  with w1 rd show ?thesis by (simp add: channel_handshake_def handshake_literals)
qed

text \<open>
  C6. \<^verbatim>\<open>channel_handshake\<close> writes exactly the 12 bytes \<^verbatim>\<open>TEXPRESSOS01\<close> to the stream, then
  reads exactly the next 12 bytes of the stream, and returns true if and only if those
  12 bytes are \<^verbatim>\<open>TEXPRESSOC01\<close>; for any other 12 bytes it returns false. It does not abort
  on a stream that takes at least one byte at each \<^verbatim>\<open>write\<close> and delivers 12 bytes without
  a failing or empty \<^verbatim>\<open>read\<close>.
\<close>

theorem handshake_accepts_exactly_client_magic:
  "(channel_handshake c = Inr (b, c') \<longrightarrow>
      delivered (fd c') = delivered (fd c) @ map of_char ''TEXPRESSOS01''
      \<and> length (map of_char ''TEXPRESSOS01'' :: byte list) = 12
      \<and> 12 \<le> length (pending (fd c))
      \<and> pending (fd c') = drop 12 (pending (fd c))
      \<and> b = (take 12 (pending (fd c)) = map of_char ''TEXPRESSOC01''))
   \<and> (list_all wr_ok (writes (fd c)) \<and> list_all rd_ok (reads (fd c))
        \<and> 12 \<le> length (pending (fd c)) \<longrightarrow>
      (\<exists>c'. channel_handshake c
        = Inr (take 12 (pending (fd c)) = map of_char ''TEXPRESSOC01'', c')))"
proof (intro conjI impI)
  assume r: "channel_handshake c = Inr (b, c')"
  from channel_handshake_result [OF r]
  show "delivered (fd c') = delivered (fd c) @ map of_char ''TEXPRESSOS01''"
    "12 \<le> length (pending (fd c))"
    "pending (fd c') = drop 12 (pending (fd c))"
    "b = (take 12 (pending (fd c)) = map of_char ''TEXPRESSOC01'')"
    by simp_all
next
  show "length (map of_char ''TEXPRESSOS01'' :: byte list) = 12" by simp
next
  assume a: "list_all wr_ok (writes (fd c)) \<and> list_all rd_ok (reads (fd c))
        \<and> 12 \<le> length (pending (fd c))"
  then obtain b c' where r: "channel_handshake c = Inr (b, c')"
    using channel_handshake_ok [of c] by blast
  from channel_handshake_result [OF r] r
  show "\<exists>c'. channel_handshake c
        = Inr (take 12 (pending (fd c)) = map of_char ''TEXPRESSOC01'', c')"
    by simp
qed

text \<open>Two peers: one sends the client magic in two pieces after an interrupted call (and
  more bytes after it), the other sends twelve other bytes.\<close>

definition good_peer :: stream where
  "good_peer =
     \<lparr>reads = [RdIntr, RdData (map of_char ''TEXPR''), RdData (map of_char ''ESSOC01more'')],
      writes = [WrAccept 5], delivered = []\<rparr>"

definition bad_peer :: stream where
  "bad_peer = \<lparr>reads = [RdData (map of_char ''TEXPRESSOC02'')], writes = [], delivered = []\<rparr>"

theorem handshake_accepts_exactly_client_magic_witness:
  "list_all wr_ok (writes (fd (fresh_channel good_peer)))
   \<and> list_all rd_ok (reads (fd (fresh_channel good_peer)))
   \<and> 12 \<le> length (pending (fd (fresh_channel good_peer)))
   \<and> (\<exists>c'. channel_handshake (fresh_channel good_peer) = Inr (True, c')
         \<and> delivered (fd c') = map of_char ''TEXPRESSOS01''
         \<and> pending (fd c') = map of_char ''more'')
   \<and> (\<exists>c'. channel_handshake (fresh_channel bad_peer) = Inr (False, c'))"
proof -
  let ?g = "fresh_channel good_peer" and ?b = "fresh_channel bad_peer"
  have g: "list_all wr_ok (writes (fd ?g))" "list_all rd_ok (reads (fd ?g))"
    "pending (fd ?g) = map of_char ''TEXPRESSOC01more''" "delivered (fd ?g) = []"
    by (simp_all add: fresh_channel_def good_peer_def pending_def)
  have b: "list_all wr_ok (writes (fd ?b))" "list_all rd_ok (reads (fd ?b))"
    "pending (fd ?b) = map of_char ''TEXPRESSOC02''"
    by (simp_all add: fresh_channel_def bad_peer_def pending_def)
  from handshake_accepts_exactly_client_magic [of ?g] g obtain c1 where
    r1: "channel_handshake ?g = Inr (True, c1)" by auto
  with handshake_accepts_exactly_client_magic [of ?g True c1] g
  have d1: "delivered (fd c1) = map of_char ''TEXPRESSOS01''" "pending (fd c1) = map of_char ''more''"
    by simp_all
  from handshake_accepts_exactly_client_magic [of ?b] b obtain c2 where
    r2: "channel_handshake ?b = Inr (False, c2)" by auto
  from g r1 d1 r2 show ?thesis by auto
qed

subsection \<open>\<^verbatim>\<open>buffered_read_at_least\<close>\<close>

text \<open>A closed or starved stream: every coming \<^verbatim>\<open>read\<close> is interrupted or returns zero
  bytes.\<close>

fun starved :: "rd_event \<Rightarrow> bool" where
  "starved RdIntr = True"
| "starved RdFail = False"
| "starved (RdData bs) = (bs = [])"

lemma sys_read_starved:
  assumes "list_all starved (reads s)"
  shows "(\<exists>s'. sys_read s n = (EINTR, s') \<and> list_all starved (reads s'))
       \<or> (\<exists>s'. sys_read s n = (Got [], s') \<and> list_all starved (reads s'))"
proof (cases "reads s")
  case Nil
  with assms show ?thesis by (simp add: sys_read.simps)
next
  case (Cons e es)
  with assms show ?thesis by (cases e) (auto simp: sys_read.simps)
qed

lemma loop_starved_no_result:
  "buffered_read_at_least_loop s acc atleast n = Some y \<Longrightarrow>
     \<not> (list_all starved (reads s) \<and> length acc < atleast)"
proof (induction rule: buffered_read_at_least_loop.raw_induct [rotated 1, consumes 1])
  case (1 loop s acc atleast n y)
  show ?case
  proof
    assume a: "list_all starved (reads s) \<and> length acc < atleast"
    from sys_read_starved [of s n] a consider
      (intr) s' where "sys_read s n = (EINTR, s')" "list_all starved (reads s')"
      | (zero) s' where "sys_read s n = (Got [], s')" "list_all starved (reads s')"
      by blast
    then show False
    proof cases
      case intr
      with "1.hyps" have "loop s' acc atleast n = Some y" by simp
      from "1.IH" [OF this] intr a show False by simp
    next
      case zero
      with "1.hyps" a have "loop s' acc atleast n = Some y" by simp
      from "1.IH" [OF this] zero a show False by simp
    qed
  qed
qed

lemma loop_starved_diverges:
  "list_all starved (reads s) \<Longrightarrow> length acc < atleast \<Longrightarrow>
     buffered_read_at_least_loop s acc atleast n = None"
  using loop_starved_no_result [of s acc atleast n] by (cases "buffered_read_at_least_loop s acc atleast n") auto

lemma loop_result:
  "buffered_read_at_least_loop s acc atleast n = Some y \<Longrightarrow> y = Inr (bs, s') \<Longrightarrow>
     (\<exists>got. bs = acc @ got \<and> got = take (length got) (pending s) \<and>
        pending s' = drop (length got) (pending s) \<and> length got \<le> n) \<and>
     atleast \<le> length bs \<and> writes s' = writes s \<and> delivered s' = delivered s \<and>
     (list_all rd_ok (reads s) \<longrightarrow> list_all rd_ok (reads s'))"
proof (induction arbitrary: bs s' rule: buffered_read_at_least_loop.raw_induct [rotated 1, consumes 1])
  case (1 loop s acc atleast n y)
  obtain r s1 where sr: "sys_read s n = (r, s1)" by (cases "sys_read s n")
  have okp: "list_all rd_ok (reads s) \<longrightarrow> list_all rd_ok (reads s1)"
    using sr by (cases "reads s") (auto simp: sys_read.simps split: rd_event.splits if_splits)
  show ?case
  proof (cases r)
    case EINTR
    with sr "1.hyps" have "loop s1 acc atleast n = Some y" by simp
    from "1.IH" [OF this "1.prems"] sys_read_EINTR_eq [of s n s1] sr EINTR okp
    show ?thesis by simp
  next
    case EFAIL
    with sr "1.hyps" "1.prems" show ?thesis by (simp add: fail_def)
  next
    case (Got b)
    define k where "k = length b"
    define p where "p = pending s"
    from sys_read_Got_eq [of s n b s1] sr Got have g:
      "b = take k p" "pending s1 = drop k p" "k \<le> n" "writes s1 = writes s"
      "delivered s1 = delivered s"
      by (simp_all add: k_def p_def)
    have lb: "length b = k" by (simp add: k_def)
    have kp: "k \<le> length p" using arg_cong [OF g(1), of length] lb by simp
    show ?thesis
    proof (cases "atleast \<le> length (acc @ b)")
      case True
      with sr Got "1.hyps" "1.prems" have "bs = acc @ b" "s' = s1" by (simp_all add: ret_def)
      with g True okp lb show ?thesis unfolding p_def [symmetric]
        by (intro conjI exI [of _ b]) simp_all
    next
      case False
      with sr Got "1.hyps" have "loop s1 (acc @ b) atleast (n - length b) = Some y" by simp
      from "1.IH" [OF this "1.prems"] obtain got where ih:
        "bs = (acc @ b) @ got" "got = take (length got) (pending s1)"
        "pending s' = drop (length got) (pending s1)" "length got \<le> n - length b"
        "atleast \<le> length bs" "writes s' = writes s1" "delivered s' = delivered s1"
        "list_all rd_ok (reads s1) \<longrightarrow> list_all rd_ok (reads s')"
        by blast
      define j where "j = length got"
      have lg: "length got = j" by (simp add: j_def)
      note ih' = ih(2,3,4) [unfolded lg lb g(2)]
      have "take (k + j) p = take k p @ take j (drop k p)" by (simp add: take_add)
      with g(1) ih'(1) have 1: "b @ got = take (k + j) p" by simp
      have 2: "length (b @ got) = k + j" by (simp add: lb lg)
      have 3: "pending s' = drop (k + j) p" using ih'(2) by (simp add: add.commute)
      have 4: "k + j \<le> n" using ih'(3) g(3) by simp
      show ?thesis unfolding p_def [symmetric]
        using ih(1,5,6,7,8) 1 2 3 4 g(4,5) okp
        by (intro conjI exI [of _ "b @ got"]) simp_all
    qed
  qed
qed

lemma loop_ok:
  "list_all rd_ok (reads s) \<Longrightarrow> atleast \<le> length acc + length (pending s) \<Longrightarrow>
   atleast \<le> length acc + n \<Longrightarrow>
     \<exists>bs s'. buffered_read_at_least_loop s acc atleast n = Some (Inr (bs, s')) \<and>
       (pending s \<noteq> [] \<and> 0 < n \<longrightarrow> length acc < length bs)"
proof (induction "reads s" arbitrary: s acc n)
  case Nil
  then have "sys_read s n = (Got [], s)" by (simp add: sys_read.simps)
  moreover from Nil have "pending s = []" by (simp add: pending_def)
  ultimately show ?case using Nil.prems
    by (simp add: buffered_read_at_least_loop.simps [of s] ret_def)
next
  case (Cons e es)
  note rs = Cons.hyps(2) [symmetric]
  from rs Cons.prems(1) have ok: "rd_ok e" "list_all rd_ok es" by simp_all
  show ?case
  proof (cases e)
    case RdIntr
    let ?s1 = "s\<lparr>reads := es\<rparr>"
    from RdIntr rs have sr: "sys_read s n = (EINTR, ?s1)"
      by (simp add: sys_read.simps)
    have p: "pending ?s1 = pending s" using sys_read_EINTR_eq [OF sr] by simp
    have "\<exists>bs s'. buffered_read_at_least_loop ?s1 acc atleast n = Some (Inr (bs, s')) \<and>
       (pending ?s1 \<noteq> [] \<and> 0 < n \<longrightarrow> length acc < length bs)"
      by (rule Cons.hyps(1)) (use ok Cons.prems p in simp_all)
    then obtain bs s' where "buffered_read_at_least_loop ?s1 acc atleast n = Some (Inr (bs, s'))"
      "pending s \<noteq> [] \<and> 0 < n \<longrightarrow> length acc < length bs" using p by auto
    with sr show ?thesis by (simp add: buffered_read_at_least_loop.simps [of s])
  next
    case RdFail
    with ok show ?thesis by simp
  next
    case (RdData b)
    let ?s1 = "s\<lparr>reads := (if length b \<le> n then es else RdData (drop n b) # es)\<rparr>"
    from RdData rs have sr: "sys_read s n = (Got (take n b), ?s1)"
      by (simp add: sys_read.simps)
    from ok RdData have ne: "b \<noteq> []" by simp
    show ?thesis
    proof (cases "atleast \<le> length (acc @ take n b)")
      case True
      with sr ne show ?thesis
        by (simp add: buffered_read_at_least_loop.simps [of s] ret_def)
    next
      case False
      with Cons.prems(3) have small: "length b \<le> n" by (simp add: min_def split: if_splits)
      then have s1: "?s1 = s\<lparr>reads := es\<rparr>" and tb: "take n b = b" by simp_all
      have p: "pending s = b @ pending ?s1"
        using rs RdData small by (simp add: pending_def)
      have "\<exists>bs s'. buffered_read_at_least_loop ?s1 (acc @ b) atleast (n - length b)
                 = Some (Inr (bs, s')) \<and>
         (pending ?s1 \<noteq> [] \<and> 0 < n - length b \<longrightarrow> length (acc @ b) < length bs)"
        by (rule Cons.hyps(1)) (use ok Cons.prems p small in simp_all)
      then obtain bs s' where
        r: "buffered_read_at_least_loop ?s1 (acc @ b) atleast (n - length b) = Some (Inr (bs, s'))"
        by blast
      from loop_result [OF r refl] have "length (acc @ b) \<le> length bs" by auto
      with ne have "length acc < length bs" by (cases b) auto
      with sr r False tb show ?thesis
        by (simp add: buffered_read_at_least_loop.simps [of s])
    qed
  qed
qed

text \<open>The input side of the channel invariant, and the input the channel has not consumed
  yet: the staged bytes and those the stream will still deliver.\<close>

definition input_ok :: "channel_t \<Rightarrow> bool" where
  "input_ok t =
     (length (input_buffer t) = BUF_SIZE \<and> input_pos t \<le> input_len t \<and> input_len t \<le> BUF_SIZE)"

definition staged :: "channel_t \<Rightarrow> byte list" where
  "staged t = take (input_len t - input_pos t) (drop (input_pos t) (input_buffer t))"

definition unread :: "channel_t \<Rightarrow> byte list" where
  "unread t = staged t @ pending (fd t)"

lemma crefill_starved_diverges:
  assumes ok: "input_ok t" and st: "list_all starved (reads (fd t))"
    and n: "0 < at_least" "at_least \<le> BUF_SIZE - (input_len t - input_pos t)"
  shows "crefill t at_least = None"
proof -
  let ?avail = "input_len t - input_pos t"
  from ok have pk: "peek (input_buffer t) (input_pos t) ?avail = Inr (staged t)"
    by (simp add: peek_def input_ok_def staged_def)
  from ok have "length (staged t) \<le> length (input_buffer t)"
    by (simp add: staged_def input_ok_def)
  then obtain moved where mv: "memcpy (input_buffer t) 0 (staged t) = Inr moved"
    by (simp add: memcpy_def)
  from n have "buffered_read_at_least (fd t) at_least (BUF_SIZE - ?avail) = None"
    by (simp add: buffered_read_at_least_def loop_starved_diverges [OF st])
  with pk mv show ?thesis by (simp add: crefill_def Let_def)
qed

definition closed_stream :: stream where
  "closed_stream = \<lparr>reads = [], writes = [], delivered = []\<rparr>"

lemma fresh_input_ok: "input_ok (fresh_channel s)"
  by (simp add: input_ok_def fresh_channel_def)

text \<open>
  C4. When \<^verbatim>\<open>crefill\<close> is called for at least one new byte and every \<^verbatim>\<open>read\<close> of the stream
  returns zero bytes (the peer has closed it), the claim is that the call aborts and does
  not loop. The code does not do so: on a fresh channel over a closed stream
  \<^verbatim>\<open>crefill(t, 1)\<close> never returns (\<^verbatim>\<open>buffered_read_at_least\<close> has no test for a read of zero
  bytes and calls \<^verbatim>\<open>read\<close> again for ever), where \<^verbatim>\<open>read_all\<close> on the same stream aborts.
\<close>

theorem crefill_on_closed_stream_never_returns:
  "crefill (fresh_channel closed_stream) 1 = None
   \<and> read_all closed_stream 1 = Inl Abort"
proof
  have "list_all starved (reads (fd (fresh_channel closed_stream)))"
    by (simp add: fresh_channel_def closed_stream_def)
  from crefill_starved_diverges [OF fresh_input_ok this, of 1]
  show "crefill (fresh_channel closed_stream) 1 = None"
    by (simp add: fresh_channel_def BUF_SIZE_def)
next
  show "read_all closed_stream 1 = Inl Abort"
    by (simp add: read_all_def read_all_loop.simps sys_read.simps closed_stream_def)
qed

subsection \<open>Refilling the input buffer\<close>

text \<open>\<open>only_input t t'\<close>: the step from \<open>t\<close> to \<open>t'\<close> touched nothing but the input staging
  buffer and the read side of the stream.\<close>

definition only_input :: "channel_t \<Rightarrow> channel_t \<Rightarrow> bool" where
  "only_input t t' =
     (output_buffer t' = output_buffer t \<and> output_pos t' = output_pos t \<and>
      buf t' = buf t \<and> buf_size t' = buf_size t \<and> buf_id t' = buf_id t \<and>
      heap t' = heap t \<and> writes (fd t') = writes (fd t) \<and> delivered (fd t') = delivered (fd t))"

lemma only_input_refl [simp]: "only_input t t"
  by (simp add: only_input_def)

lemma only_input_trans: "only_input t t1 \<Longrightarrow> only_input t1 t2 \<Longrightarrow> only_input t t2"
  by (simp add: only_input_def)

lemma length_staged: "input_ok t \<Longrightarrow> length (staged t) = input_len t - input_pos t"
  by (auto simp: staged_def input_ok_def)

lemma input_ok_avail:
  "input_ok t \<Longrightarrow> input_len t - input_pos t \<le> BUF_SIZE \<and>
     input_pos t + (input_len t - input_pos t) \<le> length (input_buffer t)"
  by (auto simp: input_ok_def)

lemma crefill_result:
  assumes ok: "input_ok t" and r: "crefill t at_least = Some (Inr t')"
  shows "(\<exists>got. staged t' = staged t @ got \<and> got = take (length got) (pending (fd t)) \<and>
            pending (fd t') = drop (length got) (pending (fd t)) \<and>
            buffered_read_at_least_loop (fd t) [] at_least (BUF_SIZE - length (staged t))
              = Some (Inr (got, fd t')))
       \<and> unread t' = unread t \<and> input_ok t' \<and> input_pos t' = 0
       \<and> length (staged t) + at_least \<le> input_len t' \<and> only_input t t'
       \<and> (list_all rd_ok (reads (fd t)) \<longrightarrow> list_all rd_ok (reads (fd t')))"
proof -
  define avail where "avail = input_len t - input_pos t"
  from ok have la: "length (staged t) = avail" by (simp add: length_staged avail_def)
  from ok have lb: "length (input_buffer t) = BUF_SIZE" and av: "avail \<le> BUF_SIZE"
    by (auto simp: input_ok_def avail_def)
  from input_ok_avail [OF ok] have pk: "peek (input_buffer t) (input_pos t) avail = Inr (staged t)"
    by (simp add: peek_def staged_def avail_def)
  define moved where "moved = staged t @ drop avail (input_buffer t)"
  from la lb av have mv: "memcpy (input_buffer t) 0 (staged t) = Inr moved"
    by (simp add: memcpy_def moved_def)
  have lm: "length moved = BUF_SIZE" using la lb av by (simp add: moved_def)
  from r pk mv obtain bs s' where
    br: "buffered_read_at_least (fd t) at_least (BUF_SIZE - avail) = Some (Inr (bs, s'))"
    and rest: "pbind (Some (memcpy moved avail bs)) (\<lambda>filled.
        ret (t\<lparr>fd := s', input_buffer := filled, input_pos := 0,
                input_len := avail + length bs\<rparr>)) = Some (Inr t')"
    by (cases "buffered_read_at_least (fd t) at_least (BUF_SIZE - avail)")
       (auto simp: crefill_def Let_def avail_def [symmetric] pbind_def split: sum.splits)
  from br have lp: "buffered_read_at_least_loop (fd t) [] at_least (BUF_SIZE - avail)
      = Some (Inr (bs, s'))"
    by (simp add: buffered_read_at_least_def fail_def split: if_splits)
  from loop_result [OF lp refl] have lr:
    "bs = take (length bs) (pending (fd t))" "pending s' = drop (length bs) (pending (fd t))"
    "length bs \<le> BUF_SIZE - avail" "at_least \<le> length bs" "writes s' = writes (fd t)"
    "delivered s' = delivered (fd t)"
    "list_all rd_ok (reads (fd t)) \<longrightarrow> list_all rd_ok (reads s')"
    by auto
  from lr(3) av lm have fits: "avail + length bs \<le> length moved" by simp
  define filled where "filled = take avail moved @ bs @ drop (avail + length bs) moved"
  from fits have mf: "memcpy moved avail bs = Inr filled" by (simp add: memcpy_def filled_def)
  with rest have t': "t' = t\<lparr>fd := s', input_buffer := filled, input_pos := 0,
                input_len := avail + length bs\<rparr>"
    by (simp add: ret_def)
  have tm: "take avail moved = staged t" using la by (simp add: moved_def)
  have "staged t' = take (avail + length bs) filled" by (simp add: t' staged_def)
  also have "filled = staged t @ bs @ drop (avail + length bs) moved"
    by (simp add: filled_def tm)
  also have "take (avail + length bs) (staged t @ bs @ drop (avail + length bs) moved)
      = staged t @ bs" using la by simp
  finally have st: "staged t' = staged t @ bs" .
  have lf: "length filled = BUF_SIZE" using fits lm la by (simp add: filled_def tm)
  have "unread t' = staged t @ bs @ drop (length bs) (pending (fd t))"
    using st lr(2) by (simp add: unread_def t')
  also have "bs @ drop (length bs) (pending (fd t)) = pending (fd t)"
    using lr(1) by (metis append_take_drop_id)
  finally have un: "unread t' = unread t" by (simp add: unread_def)
  have io: "input_ok t'" using lf lr(3) av by (simp add: input_ok_def t')
  have oi: "only_input t t'" using lr(5,6) by (simp add: only_input_def t')
  have ex: "\<exists>got. staged t' = staged t @ got \<and> got = take (length got) (pending (fd t)) \<and>
            pending (fd t') = drop (length got) (pending (fd t)) \<and>
            buffered_read_at_least_loop (fd t) [] at_least (BUF_SIZE - length (staged t))
              = Some (Inr (got, fd t'))"
    using st lr(1,2) lp la by (intro exI [of _ bs]) (simp add: t')
  from ex un io oi lr(4,7) la show ?thesis by (simp add: t')
qed

lemma crefill_ok:
  assumes ok: "input_ok t" and rk: "list_all rd_ok (reads (fd t))"
    and n: "at_least \<le> BUF_SIZE - length (staged t)" "at_least \<le> length (pending (fd t))"
  shows "\<exists>t'. crefill t at_least = Some (Inr t') \<and>
           (pending (fd t) \<noteq> [] \<and> length (staged t) < BUF_SIZE \<longrightarrow>
              length (staged t) < length (staged t'))"
proof -
  define avail where "avail = input_len t - input_pos t"
  from ok have la: "length (staged t) = avail" by (simp add: length_staged avail_def)
  from ok have lb: "length (input_buffer t) = BUF_SIZE" and av: "avail \<le> BUF_SIZE"
    by (auto simp: input_ok_def avail_def)
  from input_ok_avail [OF ok] have pk: "peek (input_buffer t) (input_pos t) avail = Inr (staged t)"
    by (simp add: peek_def staged_def avail_def)
  define moved where "moved = staged t @ drop avail (input_buffer t)"
  from la lb av have mv: "memcpy (input_buffer t) 0 (staged t) = Inr moved"
    by (simp add: memcpy_def moved_def)
  have lm: "length moved = BUF_SIZE" using la lb av by (simp add: moved_def)
  from loop_ok [OF rk, of at_least "[]" "BUF_SIZE - avail"] n la obtain bs s' where
    lp: "buffered_read_at_least_loop (fd t) [] at_least (BUF_SIZE - avail) = Some (Inr (bs, s'))"
    and more: "pending (fd t) \<noteq> [] \<and> 0 < BUF_SIZE - avail \<longrightarrow> 0 < length bs"
    by auto
  from loop_result [OF lp refl] have "length bs \<le> BUF_SIZE - avail" by auto
  with av lm have fits: "avail + length bs \<le> length moved" by simp
  then obtain filled where mf: "memcpy moved avail bs = Inr filled" by (simp add: memcpy_def)
  let ?t' = "t\<lparr>fd := s', input_buffer := filled, input_pos := 0, input_len := avail + length bs\<rparr>"
  from pk mv lp mf n la have r: "crefill t at_least = Some (Inr ?t')"
    by (simp add: crefill_def Let_def avail_def [symmetric] buffered_read_at_least_def ret_def)
  from crefill_result [OF ok r] obtain got where
    "staged ?t' = staged t @ got" "input_ok ?t'" by blast
  moreover from length_staged [OF \<open>input_ok ?t'\<close>] have "length (staged ?t') = avail + length bs"
    by simp
  ultimately show ?thesis using r more la by auto
qed

subsection \<open>Reading fixed-size values\<close>

text \<open>\<open>consumed k t t'\<close>: the step from \<open>t\<close> to \<open>t'\<close> took exactly the next \<open>k\<close> bytes of the
  unread input and kept the channel's input invariant.\<close>

definition consumed :: "nat \<Rightarrow> channel_t \<Rightarrow> channel_t \<Rightarrow> bool" where
  "consumed k t t' =
     (k \<le> length (unread t) \<and> unread t' = drop k (unread t) \<and> input_ok t' \<and>
      (list_all rd_ok (reads (fd t)) \<longrightarrow> list_all rd_ok (reads (fd t'))))"

lemma consumed_trans:
  "consumed j t t1 \<Longrightarrow> consumed k t1 t2 \<Longrightarrow> consumed (j + k) t t2"
  by (auto simp: consumed_def add.commute)

text \<open>The first \<^verbatim>\<open>read\<close> that is not interrupted returns zero bytes.\<close>

fun reads_nothing :: "rd_event list \<Rightarrow> bool" where
  "reads_nothing [] = True"
| "reads_nothing (RdIntr # es) = reads_nothing es"
| "reads_nothing (RdFail # es) = False"
| "reads_nothing (RdData bs # es) = (bs = [])"

lemma loop_at_least_0:
  "0 < n \<Longrightarrow> buffered_read_at_least_loop s [] 0 n = Some (Inr (bs, s')) \<Longrightarrow>
     (bs = []) = reads_nothing (reads s)"
proof (induction "reads s" arbitrary: s)
  case Nil
  then show ?case
    by (simp add: buffered_read_at_least_loop.simps [of s] sys_read.simps ret_def)
next
  case (Cons e es)
  note rs = Cons.hyps(2) [symmetric]
  show ?case
  proof (cases e)
    case RdIntr
    with rs Cons.prems have "buffered_read_at_least_loop (s\<lparr>reads := es\<rparr>) [] 0 n = Some (Inr (bs, s'))"
      by (simp add: buffered_read_at_least_loop.simps [of s] sys_read.simps)
    from Cons.hyps(1) [OF _ Cons.prems(1) this] rs RdIntr show ?thesis by simp
  next
    case RdFail
    with rs Cons.prems show ?thesis
      by (simp add: buffered_read_at_least_loop.simps [of s] sys_read.simps fail_def)
  next
    case (RdData b)
    with rs Cons.prems show ?thesis
      by (auto simp: buffered_read_at_least_loop.simps [of s] sys_read.simps ret_def)
  qed
qed

lemma loop_at_least_0_ok:
  "reads_nothing (reads s) \<Longrightarrow> \<exists>s'. buffered_read_at_least_loop s [] 0 n = Some (Inr ([], s'))"
proof (induction "reads s" arbitrary: s)
  case Nil
  then show ?case
    by (simp add: buffered_read_at_least_loop.simps [of s] sys_read.simps ret_def)
next
  case (Cons e es)
  note rs = Cons.hyps(2) [symmetric]
  show ?case
  proof (cases e)
    case RdIntr
    with rs Cons.prems have "reads_nothing (reads (s\<lparr>reads := es\<rparr>))" by simp
    from Cons.hyps(1) [OF _ this] rs RdIntr show ?thesis
      by (simp add: buffered_read_at_least_loop.simps [of s] sys_read.simps)
  next
    case RdFail
    with rs Cons.prems show ?thesis by simp
  next
    case (RdData b)
    with rs Cons.prems show ?thesis
      by (simp add: buffered_read_at_least_loop.simps [of s] sys_read.simps ret_def)
  qed
qed

text \<open>The step \<^verbatim>\<open>if (avail < k) crefill(t, k - avail);\<close> that opens \<^verbatim>\<open>read_u32\<close>, \<^verbatim>\<open>read_f32\<close>
  and the second half of \<^verbatim>\<open>try_read_u32\<close>.\<close>

definition fill :: "nat \<Rightarrow> channel_t \<Rightarrow> (error + channel_t) option" where
  "fill k t =
     (let avail = input_len t - input_pos t in
      if avail < k then crefill t (k - avail) else ret t)"

lemma fill_result:
  assumes ok: "input_ok t" and r: "fill k t = Some (Inr t1)"
  shows "k \<le> length (staged t1) \<and> consumed 0 t t1 \<and> only_input t t1"
proof (cases "input_len t - input_pos t < k")
  case True
  with r have "crefill t (k - (input_len t - input_pos t)) = Some (Inr t1)"
    by (simp add: fill_def)
  from crefill_result [OF ok this] length_staged [OF ok] True
  have "k \<le> input_len t1" "input_pos t1 = 0" "input_ok t1" "unread t1 = unread t"
    "only_input t t1" "list_all rd_ok (reads (fd t)) \<longrightarrow> list_all rd_ok (reads (fd t1))"
    by simp_all
  with length_staged [of t1] show ?thesis by (simp add: consumed_def)
next
  case False
  with r have "t1 = t" by (simp add: fill_def ret_def)
  with False length_staged [OF ok] ok show ?thesis by (simp add: consumed_def)
qed

lemma fill_ok:
  assumes ok: "input_ok t" and rk: "list_all rd_ok (reads (fd t))"
    and k: "k \<le> BUF_SIZE" "k \<le> length (unread t)"
  shows "\<exists>t1. fill k t = Some (Inr t1)"
proof (cases "input_len t - input_pos t < k")
  case True
  from k length_staged [OF ok] True
  have "k - (input_len t - input_pos t) \<le> BUF_SIZE - length (staged t)"
    "k - (input_len t - input_pos t) \<le> length (pending (fd t))"
    by (simp_all add: unread_def)
  from crefill_ok [OF ok rk this] True show ?thesis by (auto simp: fill_def)
next
  case False
  then show ?thesis by (simp add: fill_def ret_def)
qed

text \<open>Taking \<open>k\<close> staged bytes: \<^verbatim>\<open>memcpy(dst, t->input.buffer + t->input.pos, k);
  t->input.pos += k;\<close>\<close>

lemma take_staged:
  assumes ok: "input_ok t" and k: "k \<le> length (staged t)"
  shows "peek (input_buffer t) (input_pos t) k = Inr (take k (unread t))"
    and "consumed k t (t\<lparr>input_pos := input_pos t + k\<rparr>)"
    and "only_input t (t\<lparr>input_pos := input_pos t + k\<rparr>)"
proof -
  from k length_staged [OF ok] have le: "k \<le> input_len t - input_pos t" by simp
  with ok have b: "input_pos t + k \<le> input_len t" "input_len t \<le> length (input_buffer t)"
    by (auto simp: input_ok_def)
  have tk: "take k (staged t) = take k (drop (input_pos t) (input_buffer t))"
    using le by (simp add: staged_def min_def)
  from b show "peek (input_buffer t) (input_pos t) k = Inr (take k (unread t))"
    using k tk by (simp add: peek_def unread_def)
  let ?t' = "t\<lparr>input_pos := input_pos t + k\<rparr>"
  have "staged ?t' = drop k (staged t)"
    using b by (simp add: staged_def drop_take add.commute)
  then have "unread ?t' = drop k (unread t)" using k by (simp add: unread_def)
  moreover have "input_ok ?t'" using ok b by (simp add: input_ok_def)
  ultimately show "consumed k t ?t'" using k by (simp add: consumed_def unread_def)
  show "only_input t ?t'" by (simp add: only_input_def)
qed

lemma read_u32_fill:
  "read_u32 h t =
     pbind (fill 4 t) (\<lambda>t.
     pbind (Some (peek (input_buffer t) (input_pos t) 4)) (\<lambda>bs.
     ret (bytes_u32 h bs, t\<lparr>input_pos := input_pos t + 4\<rparr>)))"
  by (simp add: read_u32_def fill_def Let_def)

lemma read_f32_eq: "read_f32 h t = read_u32 h t"
  by (simp add: read_f32_def read_u32_def)

lemma read_u32_result:
  assumes ok: "input_ok t" and r: "read_u32 h t = Some (Inr (v, t'))"
  shows "v = bytes_u32 h (take 4 (unread t)) \<and> consumed 4 t t' \<and> only_input t t'"
proof -
  from r obtain t1 where f: "fill 4 t = Some (Inr t1)"
    by (cases "fill 4 t") (auto simp: read_u32_fill pbind_def split: sum.splits)
  note fr = fill_result [OF ok f]
  then have ok1: "input_ok t1" and k: "4 \<le> length (staged t1)" by (simp_all add: consumed_def)
  note ts = take_staged [OF ok1 k]
  from r f ts(1) have v: "v = bytes_u32 h (take 4 (unread t1))"
    and t': "t' = t1\<lparr>input_pos := input_pos t1 + 4\<rparr>"
    by (simp_all add: read_u32_fill ret_def)
  from fr have u: "unread t1 = unread t" by (simp add: consumed_def)
  from consumed_trans [of 0 t t1 4 t'] fr ts(2) t' have "consumed 4 t t'" by simp
  moreover from fr ts(3) t' have "only_input t t'" by (auto intro: only_input_trans)
  ultimately show ?thesis using v u by simp
qed

lemma read_u32_ok:
  assumes ok: "input_ok t" and rk: "list_all rd_ok (reads (fd t))"
    and k: "4 \<le> length (unread t)"
  shows "\<exists>t'. read_u32 h t = Some (Inr (bytes_u32 h (take 4 (unread t)), t'))"
proof -
  from fill_ok [OF ok rk _ k] obtain t1 where f: "fill 4 t = Some (Inr t1)"
    by (auto simp: BUF_SIZE_def)
  note fr = fill_result [OF ok f]
  then have ok1: "input_ok t1" and k1: "4 \<le> length (staged t1)" and u: "unread t1 = unread t"
    by (simp_all add: consumed_def)
  from take_staged(1) [OF ok1 k1] f u show ?thesis
    by (simp add: read_u32_fill ret_def)
qed

lemma crefill_from_loop:
  assumes ok: "input_ok t"
    and lp: "buffered_read_at_least_loop (fd t) [] n (BUF_SIZE - length (staged t)) = Some (Inr (bs, s'))"
    and n: "n \<le> BUF_SIZE - length (staged t)"
  shows "\<exists>t'. crefill t n = Some (Inr t')"
proof -
  define avail where "avail = input_len t - input_pos t"
  from ok have la: "length (staged t) = avail" by (simp add: length_staged avail_def)
  from ok have lb: "length (input_buffer t) = BUF_SIZE" and av: "avail \<le> BUF_SIZE"
    by (auto simp: input_ok_def avail_def)
  from input_ok_avail [OF ok] have pk: "peek (input_buffer t) (input_pos t) avail = Inr (staged t)"
    by (simp add: peek_def staged_def avail_def)
  define moved where "moved = staged t @ drop avail (input_buffer t)"
  from la lb av have mv: "memcpy (input_buffer t) 0 (staged t) = Inr moved"
    by (simp add: memcpy_def moved_def)
  have lm: "length moved = BUF_SIZE" using la lb av by (simp add: moved_def)
  from loop_result [OF lp refl] la have "length bs \<le> BUF_SIZE - avail" by auto
  with av lm have "avail + length bs \<le> length moved" by simp
  then obtain filled where mf: "memcpy moved avail bs = Inr filled" by (simp add: memcpy_def)
  from pk mv lp mf n la show ?thesis
    by (simp add: crefill_def Let_def avail_def [symmetric] buffered_read_at_least_def ret_def)
qed

lemma try_read_u32_unfold:
  "try_read_u32 h t =
     pbind (if input_len t - input_pos t = 0 then crefill t 0 else ret t) (\<lambda>t.
     if input_len t - input_pos t = 0 then ret (None, t)
     else pbind (read_u32 h t) (\<lambda>(v, t). ret (Some v, t)))"
  by (simp add: try_read_u32_def read_u32_def Let_def pbind_def ret_def
      split: option.splits sum.splits cong: if_cong)

lemma try_read_u32_result:
  assumes ok: "input_ok t" and r: "try_read_u32 h t = Some (Inr (got, t'))"
  shows "consumed (if got = None then 0 else 4) t t' \<and> only_input t t'
       \<and> (got = None) = (staged t = [] \<and> reads_nothing (reads (fd t)))
       \<and> (got = None \<longrightarrow> staged t' = [])
       \<and> (got \<noteq> None \<longrightarrow> got = Some (bytes_u32 h (take 4 (unread t))))"
proof -
  let ?first = "if input_len t - input_pos t = 0 then crefill t 0 else ret t"
  from r obtain t1 where f: "?first = Some (Inr t1)"
    by (cases ?first) (auto simp: try_read_u32_unfold pbind_def split: sum.splits)
  have s0: "(input_len t - input_pos t = 0) = (staged t = [])"
    using length_staged [OF ok] by auto
  have first: "consumed 0 t t1 \<and> only_input t t1
       \<and> (staged t1 = []) = (staged t = [] \<and> reads_nothing (reads (fd t)))"
  proof (cases "staged t = []")
    case True
    with f s0 have c: "crefill t 0 = Some (Inr t1)" by simp
    from crefill_result [OF ok c] True obtain got' where g:
      "staged t1 = got'"
      "buffered_read_at_least_loop (fd t) [] 0 BUF_SIZE = Some (Inr (got', fd t1))"
      "unread t1 = unread t" "input_ok t1" "only_input t t1"
      "list_all rd_ok (reads (fd t)) \<longrightarrow> list_all rd_ok (reads (fd t1))"
      by auto
    from loop_at_least_0 [OF _ g(2)] have "(got' = []) = reads_nothing (reads (fd t))"
      by (simp add: BUF_SIZE_def)
    with g True show ?thesis by (simp add: consumed_def)
  next
    case False
    with f s0 have "t1 = t" by (simp add: ret_def)
    with False ok show ?thesis by (simp add: consumed_def)
  qed
  then have ok1: "input_ok t1" by (simp add: consumed_def)
  have s1: "(input_len t1 - input_pos t1 = 0) = (staged t1 = [])"
    using length_staged [OF ok1] by auto
  show ?thesis
  proof (cases "staged t1 = []")
    case True
    with r f s1 have "got = None" "t' = t1"
      by (simp_all add: try_read_u32_unfold ret_def)
    with first True show ?thesis by simp
  next
    case False
    with r f s1 obtain v where rd: "read_u32 h t1 = Some (Inr (v, t'))" and g: "got = Some v"
      by (cases "read_u32 h t1")
         (auto simp: try_read_u32_unfold ret_def pbind_def split: sum.splits)
    from read_u32_result [OF ok1 rd] first have
      "v = bytes_u32 h (take 4 (unread t))" "consumed 4 t t'" "only_input t t'"
      using consumed_trans [of 0 t t1 4 t']
      by (auto simp: consumed_def intro: only_input_trans)
    with g first False show ?thesis by simp
  qed
qed

lemma try_read_u32_none_ok:
  assumes ok: "input_ok t" and e: "staged t = []" and n: "reads_nothing (reads (fd t))"
  shows "\<exists>t'. try_read_u32 h t = Some (Inr (None, t'))"
proof -
  have s0: "input_len t - input_pos t = 0" using length_staged [OF ok] e by simp
  from loop_at_least_0_ok [OF n, of "BUF_SIZE - length (staged t)"] obtain s' where
    "buffered_read_at_least_loop (fd t) [] 0 (BUF_SIZE - length (staged t)) = Some (Inr ([], s'))"
    by blast
  from crefill_from_loop [OF ok this] obtain t1 where c: "crefill t 0 = Some (Inr t1)" by auto
  obtain got t' where r: "try_read_u32 h t = Some (Inr (got, t'))"
  proof (cases "input_len t1 - input_pos t1 = 0")
    case True
    with c s0 have "try_read_u32 h t = Some (Inr (None, t1))"
      by (simp add: try_read_u32_unfold ret_def)
    then show ?thesis by (rule that)
  next
    case False
    from crefill_result [OF ok c] have ok1: "input_ok t1" by simp
    from try_read_u32_result [OF ok, of h] e n
    have imp: "\<And>got t'. try_read_u32 h t = Some (Inr (got, t')) \<Longrightarrow> got = None" by blast
    from crefill_result [OF ok c] e obtain got' where g:
      "staged t1 = got'"
      "buffered_read_at_least_loop (fd t) [] 0 BUF_SIZE = Some (Inr (got', fd t1))"
      by auto
    from loop_at_least_0 [OF _ g(2)] n have "got' = []" by (simp add: BUF_SIZE_def)
    with g length_staged [OF ok1] False show ?thesis by simp
  qed
  with try_read_u32_result [OF ok r] e n show ?thesis by auto
qed

lemma try_read_u32_ok:
  assumes ok: "input_ok t" and rk: "list_all rd_ok (reads (fd t))"
    and k: "4 \<le> length (unread t)"
  shows "\<exists>t'. try_read_u32 h t = Some (Inr (Some (bytes_u32 h (take 4 (unread t))), t'))"
proof -
  let ?first = "if input_len t - input_pos t = 0 then crefill t 0 else ret t"
  have s0: "(input_len t - input_pos t = 0) = (staged t = [])"
    using length_staged [OF ok] by auto
  have "\<exists>t1. ?first = Some (Inr t1) \<and> staged t1 \<noteq> []"
  proof (cases "staged t = []")
    case True
    with k have "pending (fd t) \<noteq> []" by (auto simp: unread_def)
    with crefill_ok [OF ok rk, of 0] True s0 show ?thesis by (auto simp: BUF_SIZE_def)
  next
    case False
    with s0 show ?thesis by (simp add: ret_def)
  qed
  then obtain t1 where f: "?first = Some (Inr t1)" and ne: "staged t1 \<noteq> []" by blast
  have first: "input_ok t1 \<and> unread t1 = unread t
      \<and> (list_all rd_ok (reads (fd t)) \<longrightarrow> list_all rd_ok (reads (fd t1)))"
  proof (cases "staged t = []")
    case True
    with f s0 have "crefill t 0 = Some (Inr t1)" by simp
    from crefill_result [OF ok this] show ?thesis by simp
  next
    case False
    with f s0 ok show ?thesis by (simp add: ret_def)
  qed
  then have ok1: "input_ok t1" and rk1: "list_all rd_ok (reads (fd t1))"
    and u: "unread t1 = unread t" using rk by simp_all
  have s1: "input_len t1 - input_pos t1 \<noteq> 0" using length_staged [OF ok1] ne by auto
  from read_u32_ok [OF ok1 rk1, of h] k u obtain t' where
    "read_u32 h t1 = Some (Inr (bytes_u32 h (take 4 (unread t)), t'))" by auto
  with f s1 show ?thesis by (simp add: try_read_u32_unfold ret_def)
qed

lemma cgetc_fill:
  "input_ok t \<Longrightarrow> cgetc t =
     pbind (fill 1 t) (\<lambda>t.
     pbind (Some (peek (input_buffer t) (input_pos t) 1)) (\<lambda>c.
     ret (hd c, t\<lparr>input_pos := input_pos t + 1\<rparr>)))"
  by (auto simp: cgetc_def fill_def Let_def input_ok_def)

lemma cgetc_result:
  assumes ok: "input_ok t" and r: "cgetc t = Some (Inr (c, t'))"
  shows "unread t = c # unread t' \<and> consumed 1 t t' \<and> only_input t t'"
proof -
  from r obtain t1 where f: "fill 1 t = Some (Inr t1)"
    by (cases "fill 1 t") (auto simp: cgetc_fill [OF ok] pbind_def split: sum.splits)
  note fr = fill_result [OF ok f]
  then have ok1: "input_ok t1" and k: "1 \<le> length (staged t1)" and u: "unread t1 = unread t"
    by (simp_all add: consumed_def)
  note ts = take_staged [OF ok1 k]
  from r f ts(1) have c: "c = hd (take 1 (unread t1))"
    and t': "t' = t1\<lparr>input_pos := input_pos t1 + 1\<rparr>"
    by (simp_all add: cgetc_fill [OF ok] ret_def)
  from consumed_trans [of 0 t t1 1 t'] fr ts(2) t' have cs: "consumed 1 t t'" by simp
  moreover from fr ts(3) t' have "only_input t t'" by (auto intro: only_input_trans)
  moreover from cs c u have "unread t = c # unread t'"
    by (cases "unread t") (auto simp: consumed_def)
  ultimately show ?thesis by simp
qed

lemma cgetc_ok:
  assumes ok: "input_ok t" and rk: "list_all rd_ok (reads (fd t))"
    and k: "unread t \<noteq> []"
  shows "\<exists>c t'. cgetc t = Some (Inr (c, t'))"
proof -
  from k have "1 \<le> length (unread t)" by (cases "unread t") auto
  from fill_ok [OF ok rk _ this] obtain t1 where f: "fill 1 t = Some (Inr t1)"
    by (auto simp: BUF_SIZE_def)
  note fr = fill_result [OF ok f]
  then have ok1: "input_ok t1" and k1: "1 \<le> length (staged t1)" by (simp_all add: consumed_def)
  from take_staged(1) [OF ok1 k1] f show ?thesis
    by (simp add: cgetc_fill [OF ok] ret_def)
qed

subsection \<open>The scratch buffer\<close>

text \<open>The scratch side of the channel invariant: the capacity is the size of the
  allocation and is 256 times a power of two.\<close>

definition scratch_ok :: "channel_t \<Rightarrow> bool" where
  "scratch_ok t = (length (buf t) = buf_size t \<and> (\<exists>k. buf_size t = 256 * 2 ^ k))"

fun malloc_ok :: "malloc_event \<Rightarrow> bool" where
  "malloc_ok MallocFail = False"
| "malloc_ok (MallocOk j) = True"

text \<open>\<open>decode_frame t t'\<close>: what every step of a decode keeps. The output side is untouched,
  the scratch buffer only grows, and it has its old capacity as long as it is the same
  allocation; a stream without failing reads and a heap without failing allocations stay
  so.\<close>

definition decode_frame :: "channel_t \<Rightarrow> channel_t \<Rightarrow> bool" where
  "decode_frame t t' =
     (output_buffer t' = output_buffer t \<and> output_pos t' = output_pos t \<and>
      writes (fd t') = writes (fd t) \<and> delivered (fd t') = delivered (fd t) \<and>
      buf_size t \<le> buf_size t' \<and> buf_id t \<le> buf_id t' \<and>
      (buf_id t' = buf_id t \<longrightarrow> buf_size t' = buf_size t) \<and>
      (list_all rd_ok (reads (fd t)) \<longrightarrow> list_all rd_ok (reads (fd t'))) \<and>
      (list_all malloc_ok (heap t) \<longrightarrow> list_all malloc_ok (heap t')))"

lemma decode_frame_refl [simp]: "decode_frame t t"
  by (simp add: decode_frame_def)

lemma decode_frame_trans:
  "decode_frame t t1 \<Longrightarrow> decode_frame t1 t2 \<Longrightarrow> decode_frame t t2"
  by (auto simp: decode_frame_def)

lemma input_step_frame:
  "consumed k t t' \<Longrightarrow> only_input t t' \<Longrightarrow> decode_frame t t'"
  by (simp add: consumed_def only_input_def decode_frame_def)

lemma malloc_cases:
  obtains (fails) hp where "malloc h n = (None, hp)" "\<not> list_all malloc_ok h"
    | (gives) fresh hp where "malloc h n = (Some fresh, hp)" "length fresh = n"
        "list_all malloc_ok h \<longrightarrow> list_all malloc_ok hp"
proof (cases h)
  case Nil
  then show ?thesis using gives [of "replicate n 0" "[]"] by simp
next
  case (Cons e hp)
  then show ?thesis
    using fails [of hp] gives [of _ hp] by (cases e) auto
qed

lemma resize_buf_result:
  assumes ok: "scratch_ok t" and r: "resize_buf t = Inr t'"
  shows "buf_size t' = 2 * buf_size t \<and> take (buf_size t) (buf t') = buf t \<and> scratch_ok t'
       \<and> buf_id t' = Suc (buf_id t) \<and> 2 * buf_size t \<le> INT_MAX
       \<and> input_buffer t' = input_buffer t \<and> input_pos t' = input_pos t
       \<and> input_len t' = input_len t \<and> fd t' = fd t \<and> decode_frame t t'"
proof -
  from ok obtain k where l: "length (buf t) = buf_size t" and k: "buf_size t = 256 * 2 ^ k"
    by (auto simp: scratch_ok_def)
  from r have im: "2 * buf_size t \<le> INT_MAX"
    by (simp add: resize_buf_def Let_def mult.commute split: if_splits)
  show ?thesis
  proof (cases rule: malloc_cases [of "heap t" "buf_size t * 2"])
    case (fails hp)
    with r im show ?thesis by (simp add: resize_buf_def Let_def mult.commute)
  next
    case (gives fresh hp)
    from l have pk: "peek (buf t) 0 (buf_size t) = Inr (buf t)" by (simp add: peek_def)
    from l gives(2) have mc: "memcpy fresh 0 (buf t) = Inr (buf t @ drop (buf_size t) fresh)"
      by (simp add: memcpy_def)
    from r im gives(1) pk mc have t': "t' = t\<lparr>buf := buf t @ drop (buf_size t) fresh,
        buf_size := buf_size t * 2, buf_id := Suc (buf_id t), heap := hp\<rparr>"
      by (simp add: resize_buf_def Let_def mult.commute)
    have "buf_size t * 2 = 256 * 2 ^ Suc k" using k by simp
    then have "\<exists>j. buf_size t * 2 = 256 * 2 ^ j" by (rule exI)
    moreover have "length (buf t @ drop (buf_size t) fresh) = buf_size t * 2"
      using l gives(2) by simp
    ultimately have "scratch_ok t'" unfolding scratch_ok_def t' by simp
    with l im gives(3) show ?thesis by (simp add: t' decode_frame_def)
  qed
qed

lemma resize_buf_ok:
  assumes "2 * buf_size t \<le> INT_MAX" and "list_all malloc_ok (heap t)"
    and "length (buf t) = buf_size t"
  shows "\<exists>t'. resize_buf t = Inr t'"
proof (cases rule: malloc_cases [of "heap t" "buf_size t * 2"])
  case (fails hp)
  with assms(2) show ?thesis by simp
next
  case (gives fresh hp)
  with assms show ?thesis
    by (simp add: resize_buf_def Let_def mult.commute peek_def memcpy_def)
qed

lemma memcpy_byte:
  "memcpy b pos [c] = Inr b' \<Longrightarrow>
     pos < length b \<and> length b' = length b \<and> take (Suc pos) b' = take pos b @ [c]"
  by (auto simp: memcpy_def split: if_splits)

text \<open>What a returning \<^verbatim>\<open>read_zstr\<close> loop has done: it took a string without NUL and its
  terminator from the unread input, stored them at \<open>pos\<close> in the scratch buffer, and left
  the bytes below \<open>pos\<close> as they were, also where the buffer was reallocated.\<close>

lemma read_zstr_loop_result:
  "read_zstr_loop t pos = Some y \<Longrightarrow> y = Inr (pos', t') \<Longrightarrow>
   input_ok t \<Longrightarrow> scratch_ok t \<Longrightarrow> pos \<le> buf_size t \<Longrightarrow>
     (\<exists>str. unread t = str @ 0 # unread t' \<and> 0 \<notin> set str \<and> pos' = pos + length str + 1 \<and>
        take pos' (buf t') = take pos (buf t) @ str @ [0] \<and>
        consumed (length str + 1) t t') \<and>
     pos' \<le> buf_size t' \<and> input_ok t' \<and> scratch_ok t' \<and> decode_frame t t'"
proof (induction arbitrary: pos' t' rule: read_zstr_loop.raw_induct [rotated 1, consumes 1])
  case (1 loop t pos y)
  note body = "1.hyps" and y = "1.prems"(1) and iok = "1.prems"(2) and sok = "1.prems"(3)
    and ple = "1.prems"(4)
  let ?first = "if pos = buf_size t then Some (resize_buf t) else ret t"
  from body y obtain t1 where f: "?first = Some (Inr t1)"
    by (cases ?first) (auto simp: pbind_def split: sum.splits)
  have s1: "input_ok t1 \<and> scratch_ok t1 \<and> unread t1 = unread t \<and> decode_frame t t1
      \<and> take pos (buf t1) = take pos (buf t) \<and> pos < buf_size t1
      \<and> (list_all rd_ok (reads (fd t)) \<longrightarrow> list_all rd_ok (reads (fd t1)))"
  proof (cases "pos = buf_size t")
    case True
    with f have "resize_buf t = Inr t1" by simp
    note rr = resize_buf_result [OF sok this]
    from sok have "length (buf t) = buf_size t" by (simp add: scratch_ok_def)
    with rr True have "take pos (buf t1) = take pos (buf t)" by simp
    moreover from sok obtain k where "buf_size t = 256 * 2 ^ k" by (auto simp: scratch_ok_def)
    with rr True have "pos < buf_size t1" by simp
    moreover from rr iok have "input_ok t1" "unread t1 = unread t"
      by (simp_all add: input_ok_def unread_def staged_def)
    ultimately show ?thesis using rr by (simp add: decode_frame_def)
  next
    case False
    with f have "t1 = t" by (simp add: ret_def)
    with False ple iok sok show ?thesis by simp
  qed
  from body f y obtain c t2 where g: "cgetc t1 = Some (Inr (c, t2))"
    by (cases "cgetc t1") (auto simp: pbind_def split: sum.splits)
  from s1 have iok1: "input_ok t1" by simp
  note gr = cgetc_result [OF iok1 g]
  then have oi: "only_input t1 t2" and c2: "consumed 1 t1 t2" by simp_all
  from body f g y obtain b where m: "memcpy (buf t2) pos [c] = Inr b"
    by (cases "memcpy (buf t2) pos [c]") (auto simp: pbind_def)
  let ?t3 = "t2\<lparr>buf := b\<rparr>"
  note mb = memcpy_byte [OF m]
  have b2: "buf t2 = buf t1" "buf_size t2 = buf_size t1" using oi by (simp_all add: only_input_def)
  have iok3: "input_ok ?t3" using c2 by (simp add: consumed_def input_ok_def)
  have sok3: "scratch_ok ?t3" using s1 mb b2 by (simp add: scratch_ok_def)
  have u3: "unread ?t3 = unread t2" by (simp add: unread_def staged_def)
  have tk3: "take (Suc pos) (buf ?t3) = take pos (buf t) @ [c]" using mb b2 s1 by simp
  have fr3: "decode_frame t ?t3"
  proof -
    from input_step_frame [OF c2 oi] have "decode_frame t1 t2" .
    moreover have "decode_frame t2 ?t3" by (simp add: decode_frame_def)
    ultimately show ?thesis using s1 by (blast intro: decode_frame_trans)
  qed
  have c3: "consumed 1 t ?t3"
    using c2 s1 u3 by (simp add: consumed_def input_ok_def)
  have ut: "unread t = c # unread ?t3" using gr s1 u3 by simp
  show ?case
  proof (cases "c = 0")
    case True
    with body f g m y have res: "pos' = pos + 1" "t' = ?t3" by (simp_all add: ret_def)
    have "take pos' (buf t') = take pos (buf t) @ [] @ [0]" using tk3 True res by simp
    moreover have "unread t = [] @ 0 # unread t'" using ut True res by simp
    moreover have "consumed (length ([] :: byte list) + 1) t t'" using c3 res by simp
    ultimately have "\<exists>str. unread t = str @ 0 # unread t' \<and> 0 \<notin> set str \<and>
        pos' = pos + length str + 1 \<and> take pos' (buf t') = take pos (buf t) @ str @ [0] \<and>
        consumed (length str + 1) t t'"
      using res by (intro exI [of _ "[]"]) simp
    moreover have "pos' \<le> buf_size t'" using res s1 b2 by simp
    ultimately show ?thesis using iok3 sok3 fr3 res by simp
  next
    case False
    with body f g m have rec: "loop ?t3 (pos + 1) = Some y" by simp
    have ple3: "pos + 1 \<le> buf_size ?t3" using s1 b2 by simp
    from "1.IH" [OF rec y iok3 sok3 ple3] obtain str where ih:
      "unread ?t3 = str @ 0 # unread t'" "0 \<notin> set str" "pos' = pos + 1 + length str + 1"
      "take pos' (buf t') = take (pos + 1) (buf ?t3) @ str @ [0]"
      "consumed (length str + 1) ?t3 t'"
      "pos' \<le> buf_size t'" "input_ok t'" "scratch_ok t'" "decode_frame ?t3 t'"
      by blast
    have "unread t = (c # str) @ 0 # unread t'" using ut ih(1) by simp
    moreover have "0 \<notin> set (c # str)" using False ih(2) by simp
    moreover have "pos' = pos + length (c # str) + 1" using ih(3) by simp
    moreover have "take pos' (buf t') = take pos (buf t) @ (c # str) @ [0]"
      using ih(4) tk3 by simp
    moreover have "consumed (length (c # str) + 1) t t'"
      using consumed_trans [OF c3 ih(5)] by (simp add: add.commute)
    ultimately have "\<exists>str. unread t = str @ 0 # unread t' \<and> 0 \<notin> set str \<and>
        pos' = pos + length str + 1 \<and> take pos' (buf t') = take pos (buf t) @ str @ [0] \<and>
        consumed (length str + 1) t t'"
      by (intro exI [of _ "c # str"]) simp
    moreover have "decode_frame t t'" using fr3 ih(9) by (rule decode_frame_trans)
    ultimately show ?thesis using ih(6,7,8) by simp
  qed
qed

text \<open>One turn of the \<^verbatim>\<open>read_zstr\<close> loop on a stream that delivers and a heap that
  allocates.\<close>

lemma read_zstr_step:
  assumes iok: "input_ok t" and sok: "scratch_ok t" and ple: "pos \<le> buf_size t"
    and rk: "list_all rd_ok (reads (fd t))" and mk: "list_all malloc_ok (heap t)"
    and u: "unread t = c # rest" and im: "2 * pos \<le> INT_MAX"
  shows "\<exists>t3. read_zstr_loop t pos
             = (if c \<noteq> 0 then read_zstr_loop t3 (pos + 1) else ret (pos + 1, t3))
           \<and> input_ok t3 \<and> scratch_ok t3 \<and> list_all rd_ok (reads (fd t3))
           \<and> list_all malloc_ok (heap t3) \<and> unread t3 = rest \<and> pos + 1 \<le> buf_size t3"
proof -
  let ?first = "if pos = buf_size t then Some (resize_buf t) else ret t"
  from sok have l: "length (buf t) = buf_size t" by (simp add: scratch_ok_def)
  have "\<exists>t1. ?first = Some (Inr t1)"
  proof (cases "pos = buf_size t")
    case True
    with resize_buf_ok [OF _ mk l] im show ?thesis by simp
  next
    case False
    then show ?thesis by (simp add: ret_def)
  qed
  then obtain t1 where f: "?first = Some (Inr t1)" by blast
  have s1: "input_ok t1 \<and> scratch_ok t1 \<and> unread t1 = unread t \<and> pos < buf_size t1
      \<and> list_all rd_ok (reads (fd t1)) \<and> list_all malloc_ok (heap t1)"
  proof (cases "pos = buf_size t")
    case True
    with f have "resize_buf t = Inr t1" by simp
    note rr = resize_buf_result [OF sok this]
    from sok obtain k where "buf_size t = 256 * 2 ^ k" by (auto simp: scratch_ok_def)
    with rr True have "pos < buf_size t1" by simp
    moreover from rr iok have "input_ok t1" "unread t1 = unread t"
      by (simp_all add: input_ok_def unread_def staged_def)
    ultimately show ?thesis using rr rk mk by (simp add: decode_frame_def)
  next
    case False
    with f have "t1 = t" by (simp add: ret_def)
    with False ple iok sok rk mk show ?thesis by simp
  qed
  then have iok1: "input_ok t1" and rk1: "list_all rd_ok (reads (fd t1))" by simp_all
  from s1 u have "unread t1 \<noteq> []" by simp
  from cgetc_ok [OF iok1 rk1 this] obtain c' t2 where g: "cgetc t1 = Some (Inr (c', t2))"
    by blast
  note gr = cgetc_result [OF iok1 g]
  with s1 u have c': "c' = c" and u2: "unread t2 = rest" by simp_all
  from gr have oi: "only_input t1 t2" and c2: "consumed 1 t1 t2" by simp_all
  have b2: "buf t2 = buf t1" "buf_size t2 = buf_size t1" "heap t2 = heap t1"
    using oi by (simp_all add: only_input_def)
  from s1 b2 have "pos + length [c] \<le> length (buf t2)" by (simp add: scratch_ok_def)
  then obtain b where m: "memcpy (buf t2) pos [c] = Inr b" by (simp add: memcpy_def)
  let ?t3 = "t2\<lparr>buf := b\<rparr>"
  note mb = memcpy_byte [OF m]
  have "read_zstr_loop t pos
      = (if c \<noteq> 0 then read_zstr_loop ?t3 (pos + 1) else ret (pos + 1, ?t3))"
    using f g m c' by (simp add: read_zstr_loop.simps [of t pos])
  moreover have "input_ok ?t3" using c2 by (simp add: consumed_def input_ok_def)
  moreover have "scratch_ok ?t3" using s1 mb b2 by (simp add: scratch_ok_def)
  moreover have "list_all rd_ok (reads (fd ?t3))" using c2 rk1 by (simp add: consumed_def)
  moreover have "list_all malloc_ok (heap ?t3)" using s1 b2 by simp
  moreover have "unread ?t3 = rest" using u2 by (simp add: unread_def staged_def)
  moreover have "pos + 1 \<le> buf_size ?t3" using s1 b2 by simp
  ultimately show ?thesis by blast
qed

lemma read_zstr_loop_ok:
  "input_ok t \<Longrightarrow> scratch_ok t \<Longrightarrow> pos \<le> buf_size t \<Longrightarrow>
   list_all rd_ok (reads (fd t)) \<Longrightarrow> list_all malloc_ok (heap t) \<Longrightarrow>
   unread t = str @ 0 # rest \<Longrightarrow> 0 \<notin> set str \<Longrightarrow> 2 * (pos + length str) \<le> INT_MAX \<Longrightarrow>
     \<exists>pos' t'. read_zstr_loop t pos = Some (Inr (pos', t'))"
proof (induction str arbitrary: t pos)
  case Nil
  from read_zstr_step [OF Nil.prems(1-5), of 0 rest] Nil.prems(6,8)
  show ?case by (auto simp: ret_def)
next
  case (Cons c str)
  from read_zstr_step [OF Cons.prems(1-5), of c "str @ 0 # rest"] Cons.prems(6-8)
  obtain t3 where s: "read_zstr_loop t pos = read_zstr_loop t3 (pos + 1)"
    "input_ok t3" "scratch_ok t3" "list_all rd_ok (reads (fd t3))"
    "list_all malloc_ok (heap t3)" "unread t3 = str @ 0 # rest" "pos + 1 \<le> buf_size t3"
    by auto
  from Cons.IH [OF s(2,3,7,4,5,6)] Cons.prems(7,8) s(1) show ?case by simp
qed

text \<open>\<^verbatim>\<open>read_zstr\<close> itself.\<close>

lemma read_zstr_result:
  assumes r: "read_zstr t pos = Some (Inr (p0, pos', t'))"
    and iok: "input_ok t" and sok: "scratch_ok t" and ple: "pos \<le> buf_size t"
  shows "p0 = pos
       \<and> (\<exists>str. unread t = str @ 0 # unread t' \<and> 0 \<notin> set str \<and> pos' = pos + length str + 1 \<and>
            take pos' (buf t') = take pos (buf t) @ str @ [0] \<and>
            consumed (length str + 1) t t')
       \<and> pos' \<le> buf_size t' \<and> input_ok t' \<and> scratch_ok t' \<and> decode_frame t t'"
proof -
  from r have l: "read_zstr_loop t pos = Some (Inr (pos', t'))" and p: "p0 = pos"
    by (cases "read_zstr_loop t pos"; auto simp: read_zstr_def Let_def ret_def pbind_def
        split: sum.splits)+
  from read_zstr_loop_result [OF l refl iok sok ple] p show ?thesis by simp
qed

lemma read_zstr_ok:
  assumes "input_ok t" "scratch_ok t" "pos \<le> buf_size t"
   "list_all rd_ok (reads (fd t))" "list_all malloc_ok (heap t)"
   "unread t = str @ 0 # rest" "0 \<notin> set str" "2 * (pos + length str) \<le> INT_MAX"
  shows "\<exists>pos' t'. read_zstr t pos = Some (Inr (pos, pos', t'))"
  using read_zstr_loop_ok [OF assms] by (auto simp: read_zstr_def ret_def)

lemma resize_until_result:
  "resize_until t need = Some y \<Longrightarrow> y = Inr t' \<Longrightarrow> scratch_ok t \<Longrightarrow>
     need \<le> buf_size t' \<and> scratch_ok t' \<and> take (buf_size t) (buf t') = buf t
     \<and> input_buffer t' = input_buffer t \<and> input_pos t' = input_pos t
     \<and> input_len t' = input_len t \<and> fd t' = fd t \<and> decode_frame t t'"
proof (induction arbitrary: t' rule: resize_until.raw_induct [rotated 1, consumes 1])
  case (1 loop t need y)
  note body = "1.hyps" and y = "1.prems"(1) and sok = "1.prems"(2)
  show ?case
  proof (cases "buf_size t < need")
    case True
    with body y obtain t1 where rs: "resize_buf t = Inr t1" and rec: "loop t1 need = Some y"
      by (cases "resize_buf t") (auto simp: fail_def)
    note rr = resize_buf_result [OF sok rs]
    then have sok1: "scratch_ok t1" by simp
    note ih = "1.IH" [OF rec y sok1]
    from rr have "buf_size t \<le> buf_size t1" by simp
    then have "take (buf_size t) (buf t') = take (buf_size t) (take (buf_size t1) (buf t'))"
      by (simp add: min_def)
    with ih rr have "take (buf_size t) (buf t') = buf t" by simp
    moreover from rr ih have "decode_frame t t'" by (blast intro: decode_frame_trans)
    ultimately show ?thesis using ih rr by simp
  next
    case False
    with body y have "t' = t" by (simp add: ret_def)
    with False sok show ?thesis by (simp add: scratch_ok_def)
  qed
qed

lemma resize_until_ok:
  "scratch_ok t \<Longrightarrow> list_all malloc_ok (heap t) \<Longrightarrow> 2 * need \<le> INT_MAX \<Longrightarrow>
     \<exists>t'. resize_until t need = Some (Inr t')"
proof (induction "need - buf_size t" arbitrary: t rule: less_induct)
  case less
  show ?case
  proof (cases "buf_size t < need")
    case True
    from less.prems(1) have l: "length (buf t) = buf_size t" by (simp add: scratch_ok_def)
    from True less.prems(3) have "2 * buf_size t \<le> INT_MAX" by simp
    from resize_buf_ok [OF this less.prems(2) l] obtain t1 where rs: "resize_buf t = Inr t1"
      by blast
    note rr = resize_buf_result [OF less.prems(1) rs]
    from less.prems(1) obtain k where "buf_size t = 256 * 2 ^ k" by (auto simp: scratch_ok_def)
    then have "0 < buf_size t" by simp
    moreover from rr have "buf_size t1 = 2 * buf_size t" by simp
    ultimately have "need - buf_size t1 < need - buf_size t" using True by linarith
    moreover from rr less.prems(2) have "scratch_ok t1" "list_all malloc_ok (heap t1)"
      by (simp_all add: decode_frame_def)
    ultimately obtain t' where "resize_until t1 need = Some (Inr t')"
      using less.hyps [of t1] less.prems(3) by blast
    with True rs show ?thesis by (simp add: resize_until.simps [of t])
  next
    case False
    then show ?thesis by (simp add: resize_until.simps [of t] ret_def)
  qed
qed

lemma memcpy_result:
  "memcpy b pos src = Inr b' \<Longrightarrow>
     pos + length src \<le> length b \<and> length b' = length b \<and>
     take (pos + length src) b' = take pos b @ src"
  by (auto simp: memcpy_def split: if_splits)

lemma read_all_rd_ok:
  assumes r: "read_all s n = Inr (bs, s')" and rk: "list_all rd_ok (reads s)"
  shows "list_all rd_ok (reads s')"
proof -
  from read_all_result [OF r] have "n \<le> length (pending s)" by simp
  from read_all_ok [OF rk this] r show ?thesis by auto
qed

lemma consumed_buf_update:
  "consumed k t t2 \<Longrightarrow> consumed k t (t2\<lparr>buf := b\<rparr>)"
  by (simp add: consumed_def unread_def staged_def input_ok_def)

lemma consumed_from:
  "unread t1 = unread t \<Longrightarrow>
   (list_all rd_ok (reads (fd t)) \<longrightarrow> list_all rd_ok (reads (fd t1))) \<Longrightarrow>
   consumed k t1 t' \<Longrightarrow> consumed k t t'"
  by (simp add: consumed_def)

text \<open>What a returning \<^verbatim>\<open>read_bytes\<close> has done: it took the next \<open>size\<close> bytes of the unread
  input and stored them at \<open>pos\<close> in the scratch buffer, grown to hold them.\<close>

lemma read_bytes_result:
  assumes r: "read_bytes t pos sz = Some (Inr t')"
    and iok: "input_ok t" and sok: "scratch_ok t" and ple: "pos \<le> buf_size t"
  shows "0 \<le> sz \<and> consumed (nat sz) t t'
       \<and> take (pos + nat sz) (buf t') = take pos (buf t) @ take (nat sz) (unread t)
       \<and> pos + nat sz \<le> buf_size t' \<and> input_ok t' \<and> scratch_ok t' \<and> decode_frame t t'"
proof -
  from r have nn: "0 \<le> sz" by (auto simp: read_bytes_def fail_def split: if_splits)
  define n where "n = nat sz"
  from r nn obtain t1 where g: "resize_until t (pos + n) = Some (Inr t1)"
    by (cases "resize_until t (pos + n)")
       (auto simp: read_bytes_def Let_def n_def pbind_def split: sum.splits)
  note gr = resize_until_result [OF g refl sok]
  then have sok1: "scratch_ok t1" and cap: "pos + n \<le> buf_size t1" by simp_all
  from gr iok have iok1: "input_ok t1" and u1: "unread t1 = unread t"
    by (simp_all add: input_ok_def unread_def staged_def)
  from sok have l: "length (buf t) = buf_size t" by (simp add: scratch_ok_def)
  from sok1 have l1: "length (buf t1) = buf_size t1" by (simp add: scratch_ok_def)
  have "take pos (take (buf_size t) (buf t1)) = take pos (buf t1)"
    using ple by (simp add: min_def)
  with gr have tp: "take pos (buf t1) = take pos (buf t)" by simp
  from gr have fr1: "decode_frame t t1" by simp
  have ls: "length (staged t1) = input_len t1 - input_pos t1" by (rule length_staged [OF iok1])
  show ?thesis
  proof (cases "input_pos t1 + n \<le> input_len t1")
    case True
    then have k: "n \<le> length (staged t1)" using ls by simp
    note ts = take_staged [OF iok1 k]
    from r nn g True ts(1) obtain b where m: "memcpy (buf t1) pos (take n (unread t1)) = Inr b"
      and t': "t' = t1\<lparr>buf := b, input_pos := input_pos t1 + n\<rparr>"
      by (cases "memcpy (buf t1) pos (take n (unread t1))")
         (auto simp: read_bytes_def Let_def n_def [symmetric] ret_def)
    from ts(2) have ln: "length (take n (unread t1)) = n" by (simp add: consumed_def)
    note mr = memcpy_result [OF m, unfolded ln]
    have rk1: "list_all rd_ok (reads (fd t)) \<longrightarrow> list_all rd_ok (reads (fd t1))"
      using gr by simp
    have "t' = (t1\<lparr>input_pos := input_pos t1 + n\<rparr>)\<lparr>buf := b\<rparr>"
      by (cases t1) (simp add: t')
    then have "consumed n t1 t'"
      using consumed_buf_update [OF ts(2), of b] by simp
    from consumed_from [OF u1 rk1 this] have c: "consumed n t t'" .
    have "decode_frame t1 t'" using ts(2) by (simp add: t' decode_frame_def consumed_def)
    with fr1 have "decode_frame t t'" by (rule decode_frame_trans)
    moreover have "scratch_ok t'" using sok1 mr by (simp add: t' scratch_ok_def)
    moreover have "input_ok t'" using c by (simp add: consumed_def)
    moreover have "take (pos + n) (buf t') = take pos (buf t) @ take n (unread t)"
      using mr tp u1 by (simp add: t')
    moreover have "pos + n \<le> buf_size t'" using cap by (simp add: t')
    ultimately show ?thesis using nn c by (simp add: n_def)
  next
    case False
    define isize where "isize = input_len t1 - input_pos t1"
    have li: "length (staged t1) = isize" using ls by (simp add: isize_def)
    from False have small: "isize < n" using iok1 by (auto simp: isize_def input_ok_def)
    from input_ok_avail [OF iok1]
    have pk: "peek (input_buffer t1) (input_pos t1) isize = Inr (staged t1)"
      by (simp add: peek_def staged_def isize_def)
    from r nn g False pk obtain b where m: "memcpy (buf t1) pos (staged t1) = Inr b"
      by (cases "memcpy (buf t1) pos (staged t1)")
         (auto simp: read_bytes_def Let_def n_def [symmetric] isize_def [symmetric])
    from r nn g False pk m obtain rest s' where ra: "read_all (fd t1) (n - isize) = Inr (rest, s')"
      by (cases "read_all (fd t1) (n - isize)")
         (auto simp: read_bytes_def Let_def n_def [symmetric] isize_def [symmetric])
    from r nn g False pk m ra obtain b' where m': "memcpy b (pos + isize) rest = Inr b'"
      and t': "t' = t1\<lparr>buf := b', input_pos := 0, input_len := 0, fd := s'\<rparr>"
      by (cases "memcpy b (pos + isize) rest")
         (auto simp: read_bytes_def Let_def n_def [symmetric] isize_def [symmetric] ret_def)
    note rr = read_all_result [OF ra]
    then have lr: "length rest = n - isize" by simp
    note mr = memcpy_result [OF m, unfolded li]
    note mr' = memcpy_result [OF m', unfolded lr]
    have "take n (unread t1) = staged t1 @ take (n - isize) (pending (fd t1))"
      using li small by (simp add: unread_def)
    with rr have tn: "take n (unread t1) = staged t1 @ rest" by simp
    have "pos + isize + (n - isize) = pos + n" using small by simp
    with mr mr' have tb: "take (pos + n) b' = take pos (buf t1) @ staged t1 @ rest"
      and lb': "length b' = length (buf t1)" by simp_all
    from rr have rr': "n - isize \<le> length (pending (fd t1))"
      "pending s' = drop (n - isize) (pending (fd t1))" by simp_all
    have ut': "unread t' = drop n (unread t1)"
      using rr'(2) li small by (simp add: t' unread_def staged_def)
    have nle: "n \<le> length (unread t1)" using rr'(1) li small by (simp add: unread_def)
    have iok': "input_ok t'" using iok1 by (simp add: t' input_ok_def)
    have rkp: "list_all rd_ok (reads (fd t1)) \<longrightarrow> list_all rd_ok (reads (fd t'))"
      using read_all_rd_ok [OF ra] by (simp add: t')
    have c: "consumed n t t'" using ut' nle iok' rkp u1 gr
      by (simp add: consumed_def)
    have "decode_frame t1 t'" using rr rkp by (simp add: t' decode_frame_def)
    with fr1 have "decode_frame t t'" by (rule decode_frame_trans)
    moreover have "scratch_ok t'" using sok1 lb' by (simp add: t' scratch_ok_def)
    moreover have "take (pos + n) (buf t') = take pos (buf t) @ take (nat sz) (unread t)"
      using tb tn tp u1 by (simp add: t' n_def)
    moreover have "pos + n \<le> buf_size t'" using cap by (simp add: t')
    ultimately show ?thesis using nn c iok' by (simp add: n_def)
  qed
qed

lemma read_bytes_ok:
  assumes iok: "input_ok t" and sok: "scratch_ok t"
    and rk: "list_all rd_ok (reads (fd t))" and mk: "list_all malloc_ok (heap t)"
    and nn: "0 \<le> sz" and im: "2 * (pos + nat sz) \<le> INT_MAX"
    and enough: "nat sz \<le> length (unread t)"
  shows "\<exists>t'. read_bytes t pos sz = Some (Inr t')"
proof -
  define n where "n = nat sz"
  from resize_until_ok [OF sok mk, of "pos + n"] im obtain t1 where
    g: "resize_until t (pos + n) = Some (Inr t1)" by (auto simp: n_def)
  note gr = resize_until_result [OF g refl sok]
  then have sok1: "scratch_ok t1" and cap: "pos + n \<le> buf_size t1" by simp_all
  from gr iok have iok1: "input_ok t1" and u1: "unread t1 = unread t"
    by (simp_all add: input_ok_def unread_def staged_def)
  from sok1 have l1: "length (buf t1) = buf_size t1" by (simp add: scratch_ok_def)
  from gr rk have rk1: "list_all rd_ok (reads (fd t1))" by simp
  have ls: "length (staged t1) = input_len t1 - input_pos t1" by (rule length_staged [OF iok1])
  show ?thesis
  proof (cases "input_pos t1 + n \<le> input_len t1")
    case True
    then have k: "n \<le> length (staged t1)" using ls by simp
    note ts = take_staged [OF iok1 k]
    from ts(2) have "length (take n (unread t1)) = n" by (simp add: consumed_def)
    with cap l1 obtain b where "memcpy (buf t1) pos (take n (unread t1)) = Inr b"
      by (simp add: memcpy_def)
    with nn g True ts(1) show ?thesis
      by (simp add: read_bytes_def Let_def n_def [symmetric] ret_def)
  next
    case False
    define isize where "isize = input_len t1 - input_pos t1"
    have li: "length (staged t1) = isize" using ls by (simp add: isize_def)
    from False have small: "isize < n" using iok1 by (auto simp: isize_def input_ok_def)
    from input_ok_avail [OF iok1]
    have pk: "peek (input_buffer t1) (input_pos t1) isize = Inr (staged t1)"
      by (simp add: peek_def staged_def isize_def)
    from cap l1 li small obtain b where m: "memcpy (buf t1) pos (staged t1) = Inr b"
      by (simp add: memcpy_def)
    have "length (unread t1) = isize + length (pending (fd t1))"
      using li by (simp add: unread_def)
    with enough u1 have "n - isize \<le> length (pending (fd t1))"
      by (simp add: n_def)
    from read_all_ok [OF rk1 this] obtain rest s' where
      ra: "read_all (fd t1) (n - isize) = Inr (rest, s')" by blast
    from read_all_result [OF ra] have lr: "length rest = n - isize" by simp
    from memcpy_result [OF m] have "length b = length (buf t1)" by simp
    with cap l1 lr small obtain b' where m': "memcpy b (pos + isize) rest = Inr b'"
      by (simp add: memcpy_def)
    from nn g False pk m ra m' show ?thesis
      by (simp add: read_bytes_def Let_def n_def [symmetric] isize_def [symmetric] ret_def)
  qed
qed

lemma le_u32_u32_le: "le_u32 (u32_le w) = w"
proof (rule bit_word_eqI)
  fix n assume n: "n < LENGTH(32)"
  have a: "8 \<le> n \<Longrightarrow> 8 + (n - 8) = n" "16 \<le> n \<Longrightarrow> 16 + (n - 16) = n"
    "24 \<le> n \<Longrightarrow> 24 + (n - 24) = n" by simp_all
  consider "n < 8" | "8 \<le> n" "n < 16" | "16 \<le> n" "n < 24" | "24 \<le> n" "n < 32"
    using n by fastforce
  then show "bit (le_u32 (u32_le w)) n = bit w n"
    by cases (auto simp: le_u32_def u32_le_def bit_simps a)
qed

lemma bytes_u32_u32_bytes [simp]: "bytes_u32 h (u32_bytes h w) = w"
  by (simp add: bytes_u32_def u32_bytes_def le_u32_u32_le)

subsection \<open>\<^verbatim>\<open>channel_read_query\<close>\<close>

lemma pbind_InrE:
  assumes "pbind m f = Some (Inr y)"
  obtains x where "m = Some (Inr x)" "f x = Some (Inr y)"
  using assms by (cases m) (auto simp: pbind_def split: sum.splits)

lemma read_query_none:
  "try_read_u32 h t = Some (Inr (None, t1)) \<Longrightarrow>
     channel_read_query h t r = Some (Inr (False, r, t1))"
  by (simp add: channel_read_query_def ret_def)

lemma read_query_some:
  "try_read_u32 h t = Some (Inr (Some tg, t1)) \<Longrightarrow>
     channel_read_query h t r =
       pbind (read_u32 h t1) (\<lambda>(tm, t2).
       pbind (read_query_switch h tg t2 (r\<lparr>query_t.tag := tg, time := tm\<rparr>)) (\<lambda>(r, t).
       ret (True, r, t)))"
  by (simp add: channel_read_query_def Let_def)

lemma read_query_cases:
  assumes "channel_read_query h t r = Some (Inr (b, r', t'))"
  obtains (none) "try_read_u32 h t = Some (Inr (None, t'))" "b = False" "r' = r"
    | (some) tg t1 tm t2 where "try_read_u32 h t = Some (Inr (Some tg, t1))"
        "read_u32 h t1 = Some (Inr (tm, t2))"
        "read_query_switch h tg t2 (r\<lparr>query_t.tag := tg, time := tm\<rparr>) = Some (Inr (r', t'))"
        "b = True"
proof -
  from assms obtain got t1 where tr: "try_read_u32 h t = Some (Inr (got, t1))"
    by (auto simp: channel_read_query_def elim!: pbind_InrE)
  show ?thesis
  proof (cases got)
    case None
    with tr assms read_query_none [of h t t1 r] show ?thesis by (intro none) simp_all
  next
    case (Some tg)
    with tr assms read_query_some [of h t tg t1 r] show ?thesis
      by (auto simp: ret_def elim!: pbind_InrE intro: some)
  qed
qed

lemma switch_unknown_tag:
  assumes "tg \<notin> range (query_val h)"
  shows "read_query_switch h tg t r = Some (Inl Mabort)"
proof -
  have ne: "tg \<noteq> query_val h q" for q using assms by blast
  show ?thesis by (simp add: read_query_switch_def ne fail_def)
qed

lemma switch_known_tag:
  assumes "read_query_switch h tg t r = Some (Inr y)"
  shows "tg \<in> range (query_val h)"
  using assms switch_unknown_tag [of tg h t r] by auto

text \<open>A query structure for the evaluations: every member zero.\<close>

definition null_ptr :: ptr where
  "null_ptr = \<lparr>block = 0, offset = 0\<rparr>"

definition blank_query :: query_t where
  "blank_query =
     \<lparr>query_t.tag = 0, time = 0, open_fid = 0, open_path = null_ptr, open_mode = null_ptr,
      read_fid = 0, read_pos = 0, query_t.read_size = 0, writ_fid = 0, writ_pos = 0,
      writ_size = 0, writ_buf = null_ptr, clos_fid = 0, size_fid = 0, seen_fid = 0,
      seen_pos = 0, chld_pid = 0, back_pid = 0, back_cid = 0, back_exitcode = 0,
      accs_path = null_ptr, accs_flags = 0, stat_path = null_ptr, gpic_path = null_ptr,
      gpic_type = 0, gpic_page = 0, spic_path = null_ptr, spic_cache_type = 0,
      spic_cache_page = 0, spic_cache_bounds = (0, 0, 0, 0)\<rparr>"

text \<open>
  C10. Whenever \<^verbatim>\<open>channel_read_query\<close> returns false, the query structure of the caller is
  unmodified and no input byte is consumed: no byte was staged, none is staged after the
  call, the stream has still to deliver what it had to deliver before, and the output
  side and the scratch buffer of the channel are untouched; so the unread input is the
  same and a later call decodes what arrives next.
\<close>

theorem no_query_pending_consumes_nothing:
  assumes "input_ok t" and "channel_read_query h t r = Some (Inr (False, r', t'))"
  shows "r' = r \<and> unread t' = unread t \<and> staged t = [] \<and> staged t' = []
       \<and> pending (fd t') = pending (fd t) \<and> only_input t t'"
  using assms(2)
proof (cases rule: read_query_cases)
  case none
  from try_read_u32_result [OF assms(1) none(1)] none(3)
  have "r' = r" "unread t' = unread t" "staged t = []" "staged t' = []" "only_input t t'"
    by (simp_all add: consumed_def)
  then show ?thesis by (simp add: unread_def)
next
  case (some tg t1 tm t2)
  then show ?thesis by simp
qed

text \<open>A stream on which a \<^verbatim>\<open>read\<close> returns zero bytes before three bytes arrive.\<close>

definition idle_stream :: stream where
  "idle_stream = \<lparr>reads = [RdIntr, RdData [], RdData [7, 8, 9]], writes = [], delivered = []\<rparr>"

theorem no_query_pending_consumes_nothing_witness:
  "input_ok (fresh_channel idle_stream)
   \<and> (\<exists>t'. channel_read_query example_h (fresh_channel idle_stream) blank_query
              = Some (Inr (False, blank_query, t'))
         \<and> unread t' = [7, 8, 9] \<and> unread (fresh_channel idle_stream) = [7, 8, 9])"
proof -
  let ?t = "fresh_channel idle_stream"
  have ok: "input_ok ?t" by (rule fresh_input_ok)
  have e: "staged ?t = []" "reads_nothing (reads (fd ?t))" "unread ?t = [7, 8, 9]"
    by (simp_all add: staged_def unread_def pending_def fresh_channel_def idle_stream_def)
  from try_read_u32_none_ok [OF ok e(1,2), of example_h] obtain t' where
    "try_read_u32 example_h ?t = Some (Inr (None, t'))" by blast
  then have r: "channel_read_query example_h ?t blank_query = Some (Inr (False, blank_query, t'))"
    by (rule read_query_none)
  from no_query_pending_consumes_nothing [OF ok r] e(3) have "unread t' = [7, 8, 9]" by simp
  with ok r e(3) show ?thesis by blast
qed

text \<open>
  C9. For every tag value that is not one of the twelve query enumerators,
  \<^verbatim>\<open>channel_read_query\<close>, once it has read the tag and the timestamp, reaches the
  \<^verbatim>\<open>mabort()\<close> of the \<^verbatim>\<open>default\<close> branch: it never returns, neither with a query nor with
  "no query pending". In particular, when the stream delivers (without a failing or
  empty \<^verbatim>\<open>read\<close>) at least eight bytes of which the first four are such a tag, the call
  aborts.
\<close>

theorem unknown_tag_is_fatal:
  assumes "input_ok t" and "tg \<notin> range (query_val h)"
  shows "(try_read_u32 h t = Some (Inr (Some tg, t1)) \<and> read_u32 h t1 = Some (Inr (tm, t2)) \<longrightarrow>
            channel_read_query h t r = Some (Inl Mabort))
       \<and> (try_read_u32 h t = Some (Inr (Some tg, t1)) \<longrightarrow>
            channel_read_query h t r \<noteq> Some (Inr (b, r', t')))
       \<and> (list_all rd_ok (reads (fd t)) \<and> 8 \<le> length (unread t) \<and>
          bytes_u32 h (take 4 (unread t)) = tg \<longrightarrow>
            channel_read_query h t r = Some (Inl Mabort))"
proof (intro conjI impI)
  assume a: "try_read_u32 h t = Some (Inr (Some tg, t1)) \<and> read_u32 h t1 = Some (Inr (tm, t2))"
  with read_query_some [of h t tg t1 r] switch_unknown_tag [OF assms(2)]
  show "channel_read_query h t r = Some (Inl Mabort)" by simp
next
  assume a: "try_read_u32 h t = Some (Inr (Some tg, t1))"
  show "channel_read_query h t r \<noteq> Some (Inr (b, r', t'))"
  proof
    assume "channel_read_query h t r = Some (Inr (b, r', t'))"
    then show False
    proof (cases rule: read_query_cases)
      case none
      with a show False by simp
    next
      case (some tg' t1' tm' t2')
      with a switch_known_tag [OF some(3)] assms(2) show False by simp
    qed
  qed
next
  assume a: "list_all rd_ok (reads (fd t)) \<and> 8 \<le> length (unread t) \<and>
          bytes_u32 h (take 4 (unread t)) = tg"
  with try_read_u32_ok [OF assms(1), of h] obtain t1 where
    tr: "try_read_u32 h t = Some (Inr (Some tg, t1))" by auto
  from try_read_u32_result [OF assms(1) tr] a
  have "input_ok t1" "list_all rd_ok (reads (fd t1))" "4 \<le> length (unread t1)"
    by (auto simp: consumed_def)
  from read_u32_ok [OF this, of h] obtain tm t2 where "read_u32 h t1 = Some (Inr (tm, t2))"
    by blast
  with tr read_query_some [of h t tg t1 r] switch_unknown_tag [OF assms(2)]
  show "channel_read_query h t r = Some (Inl Mabort)" by simp
qed

text \<open>A stream that delivers, in pieces, the tag 0 (no query has it) and a timestamp.\<close>

definition garbage_stream :: stream where
  "garbage_stream =
     \<lparr>reads = [RdData [0], RdIntr, RdData [0, 0, 0, 42, 0], RdData [0, 0, 1]],
      writes = [], delivered = []\<rparr>"

lemma example_no_zero_tag: "0 \<notin> range (query_val example_h)"
proof
  assume "0 \<in> range (query_val example_h)"
  then obtain q where "query_val example_h q = 0" by auto
  then show False by (cases q) (simp_all add: example_query_vals)
qed

theorem unknown_tag_is_fatal_witness:
  "input_ok (fresh_channel garbage_stream) \<and> 0 \<notin> range (query_val example_h)
   \<and> list_all rd_ok (reads (fd (fresh_channel garbage_stream)))
   \<and> 8 \<le> length (unread (fresh_channel garbage_stream))
   \<and> bytes_u32 example_h (take 4 (unread (fresh_channel garbage_stream))) = 0
   \<and> channel_read_query example_h (fresh_channel garbage_stream) blank_query = Some (Inl Mabort)"
proof -
  let ?t = "fresh_channel garbage_stream"
  have ok: "input_ok ?t" by (rule fresh_input_ok)
  have f: "list_all rd_ok (reads (fd ?t))" "unread ?t = [0, 0, 0, 0, 42, 0, 0, 0, 1]"
    by (simp_all add: staged_def unread_def pending_def fresh_channel_def garbage_stream_def)
  have z: "bytes_u32 example_h (take 4 (unread ?t)) = 0"
    by (simp add: f example_h_simps le_u32_def)
  from unknown_tag_is_fatal [OF ok example_no_zero_tag, of _ _ _ blank_query] f z
  have "channel_read_query example_h ?t blank_query = Some (Inl Mabort)" by simp
  with ok f z example_no_zero_tag show ?thesis by simp
qed

text \<open>
  C3. \<^verbatim>\<open>channel_read_query\<close> returns false ("no query pending") exactly when no input byte
  at all is available: none is staged in the input buffer, and the \<^verbatim>\<open>read\<close> it issues
  (the first that is not interrupted) returns zero bytes. When between one and three
  bytes of a tag are staged and the stream goes on to deliver the rest (no failing or
  empty \<^verbatim>\<open>read\<close>), the tag is decoded from the first four unread bytes and the call
  continues with the timestamp and the fields as for any query: it neither returns
  false nor fails on the partial tag.
\<close>

theorem false_only_without_any_input:
  assumes "input_ok t"
  shows "(channel_read_query h t r = Some (Inr (False, r', t')) \<longrightarrow>
            staged t = [] \<and> reads_nothing (reads (fd t)))
       \<and> (staged t = [] \<and> reads_nothing (reads (fd t)) \<longrightarrow>
            (\<exists>t'. channel_read_query h t r = Some (Inr (False, r, t'))))
       \<and> (staged t \<noteq> [] \<and> length (staged t) < 4 \<and> list_all rd_ok (reads (fd t)) \<and>
          4 \<le> length (unread t) \<longrightarrow>
            (\<exists>t1. try_read_u32 h t = Some (Inr (Some (bytes_u32 h (take 4 (unread t))), t1))
               \<and> unread t1 = drop 4 (unread t)
               \<and> channel_read_query h t r =
                   pbind (read_u32 h t1) (\<lambda>(tm, t2).
                   pbind (read_query_switch h (bytes_u32 h (take 4 (unread t))) t2
                            (r\<lparr>query_t.tag := bytes_u32 h (take 4 (unread t)), time := tm\<rparr>))
                     (\<lambda>(r, t). ret (True, r, t)))))"
proof -
  have a: "staged t = [] \<and> reads_nothing (reads (fd t))"
    if r: "channel_read_query h t r = Some (Inr (False, r', t'))"
    using r
  proof (cases rule: read_query_cases)
    case none
    from try_read_u32_result [OF assms none(1)] show ?thesis by simp
  next
    case (some tg t1 tm t2)
    then show ?thesis by simp
  qed
  have b: "\<exists>t'. channel_read_query h t r = Some (Inr (False, r, t'))"
    if "staged t = [] \<and> reads_nothing (reads (fd t))"
  proof -
    from that try_read_u32_none_ok [OF assms, of h] obtain t' where
      "try_read_u32 h t = Some (Inr (None, t'))" by blast
    from read_query_none [OF this] show ?thesis by blast
  qed
  let ?tg = "bytes_u32 h (take 4 (unread t))"
  have c: "\<exists>t1. try_read_u32 h t = Some (Inr (Some ?tg, t1))
               \<and> unread t1 = drop 4 (unread t)
               \<and> channel_read_query h t r =
                   pbind (read_u32 h t1) (\<lambda>(tm, t2).
                   pbind (read_query_switch h ?tg t2 (r\<lparr>query_t.tag := ?tg, time := tm\<rparr>))
                     (\<lambda>(r, t). ret (True, r, t)))"
    if "staged t \<noteq> [] \<and> length (staged t) < 4 \<and> list_all rd_ok (reads (fd t)) \<and>
          4 \<le> length (unread t)"
  proof -
    from that try_read_u32_ok [OF assms, of h] obtain t1 where
      tr: "try_read_u32 h t = Some (Inr (Some ?tg, t1))" by auto
    from try_read_u32_result [OF assms tr] have "unread t1 = drop 4 (unread t)"
      by (simp add: consumed_def)
    with tr read_query_some [OF tr, of r] show ?thesis by blast
  qed
  from a b c show ?thesis by blast
qed

end
